theory Spec2Isabelle
  imports Complex_Main
begin

section \<open>The skeleton renderer (PoseDetection.tsx, drawSkeleton)\<close>

text \<open>
  A keypoint is the pose-detection library's \<^verbatim>\<open>Keypoint\<close> object:
  \<^verbatim>\<open>{x: number; y: number; score?: number; name?: string}\<close>. The optional fields are
  options, \<open>None\<close> standing for \<^verbatim>\<open>undefined\<close>. Coordinates and scores are JavaScript
  numbers; the renderer only compares a score with the literal \<^verbatim>\<open>0.3\<close> and with zero,
  and comparisons of doubles are exact, so scores are modelled as reals. No double lies
  strictly between the double nearest to 0.3 and the real 3/10, so the comparison with
  the literal agrees with the comparison with 3/10 on every double. A NaN score is falsy
  and compares false, like \<open>None\<close>.
\<close>

record keypoint =
  kp_x :: real
  kp_y :: real
  kp_score :: "real option"
  kp_name :: "string option"

text \<open>
  The 2D context is modelled by the sequence of calls and property writes the renderer
  makes on it, in order. \<open>Arc x y r\<close> is \<^verbatim>\<open>ctx.arc(x, y, r, 0, 2 * Math.PI)\<close>: the two
  angles are constants of the source (a full circle).
\<close>

datatype canvas_op =
    ClearRect
  | BeginPath
  | Arc real real real
  | SetFillStyle string
  | Fill
  | MoveTo real real
  | LineTo real real
  | SetStrokeStyle string
  | SetLineWidth real
  | Stroke

text \<open>JavaScript truthiness of an optional number: \<^verbatim>\<open>undefined\<close> and zero are falsy.\<close>

definition truthy :: "real option \<Rightarrow> bool" where
  "truthy s = (case s of None \<Rightarrow> False | Some v \<Rightarrow> v \<noteq> 0)"

text \<open>\<^verbatim>\<open>score > 0.3\<close>; a comparison with \<^verbatim>\<open>undefined\<close> is false.\<close>

definition above_threshold :: "real option \<Rightarrow> bool" where
  "above_threshold s = (case s of None \<Rightarrow> False | Some v \<Rightarrow> v > 3 / 10)"

text \<open>The table \<^verbatim>\<open>connections\<close> of drawSkeleton, in the order of the source.\<close>

definition connections :: "(string \<times> string) list" where
  "connections =
    [(''nose'', ''left_eye''),
     (''nose'', ''right_eye''),
     (''left_eye'', ''left_ear''),
     (''right_eye'', ''right_ear''),
     (''left_shoulder'', ''right_shoulder''),
     (''left_shoulder'', ''left_elbow''),
     (''right_shoulder'', ''right_elbow''),
     (''left_elbow'', ''left_wrist''),
     (''right_elbow'', ''right_wrist''),
     (''left_shoulder'', ''left_hip''),
     (''right_shoulder'', ''right_hip''),
     (''left_hip'', ''right_hip''),
     (''left_hip'', ''left_knee''),
     (''right_hip'', ''right_knee''),
     (''left_knee'', ''left_ankle''),
     (''right_knee'', ''right_ankle'')]"

text \<open>The calls that draw one point, and the calls that draw one line.\<close>

definition point_ops :: "keypoint \<Rightarrow> canvas_op list" where
  "point_ops kp = [BeginPath, Arc (kp_x kp) (kp_y kp) 4, SetFillStyle ''#00ff00'', Fill]"

definition line_ops :: "keypoint \<Rightarrow> keypoint \<Rightarrow> canvas_op list" where
  "line_ops startPoint endPoint =
    [BeginPath, MoveTo (kp_x startPoint) (kp_y startPoint),
     LineTo (kp_x endPoint) (kp_y endPoint), SetStrokeStyle ''#00ff00'', SetLineWidth 2, Stroke]"

text \<open>
  The body of the first \<^verbatim>\<open>forEach\<close>:
  \<^verbatim>\<open>if (keypoint.score && keypoint.score > 0.3) { ... ctx.fill(); }\<close>
\<close>

definition drawPoint :: "keypoint \<Rightarrow> canvas_op list \<Rightarrow> canvas_op list" where
  "drawPoint keypoint ctx =
    (if truthy (kp_score keypoint) \<and> above_threshold (kp_score keypoint)
     then ctx @ point_ops keypoint else ctx)"

text \<open>\<^verbatim>\<open>keypoints.find((kp) => kp.name === label)\<close>: the first keypoint of that name.\<close>

definition find_named :: "string \<Rightarrow> keypoint list \<Rightarrow> keypoint option" where
  "find_named label keypoints = find (\<lambda>kp. kp_name kp = Some label) keypoints"

text \<open>
  The body of the second \<^verbatim>\<open>forEach\<close>. \<^verbatim>\<open>startPoint?.score\<close> is \<^verbatim>\<open>undefined\<close>, hence
  falsy, when \<^verbatim>\<open>find\<close> found no keypoint.
\<close>

definition drawLine :: "keypoint list \<Rightarrow> string \<times> string \<Rightarrow> canvas_op list \<Rightarrow> canvas_op list" where
  "drawLine keypoints c ctx =
    (case (find_named (fst c) keypoints, find_named (snd c) keypoints) of
       (Some startPoint, Some endPoint) \<Rightarrow>
         if truthy (kp_score startPoint) \<and> truthy (kp_score endPoint) \<and>
            above_threshold (kp_score startPoint) \<and> above_threshold (kp_score endPoint)
         then ctx @ line_ops startPoint endPoint else ctx
     | _ \<Rightarrow> ctx)"

text \<open>drawSkeleton: the points of all keypoints first, then the lines of the table.\<close>

definition drawSkeleton :: "canvas_op list \<Rightarrow> keypoint list \<Rightarrow> canvas_op list" where
  "drawSkeleton ctx keypoints =
    fold (drawLine keypoints) connections (fold drawPoint keypoints ctx)"


definition fills :: "canvas_op list \<Rightarrow> nat" where
  "fills ctx = length (filter (\<lambda>op. op = Fill) ctx)"

text \<open>
  A connection is visible in a pose when both labels are found and both found keypoints
  score above the threshold.
\<close>

definition visible :: "keypoint list \<Rightarrow> string \<times> string \<Rightarrow> bool" where
  "visible keypoints c =
    (case (find_named (fst c) keypoints, find_named (snd c) keypoints) of
       (Some startPoint, Some endPoint) \<Rightarrow>
         above_threshold (kp_score startPoint) \<and> above_threshold (kp_score endPoint)
     | _ \<Rightarrow> False)"

text \<open>The calls one connection adds to an empty context, and one keypoint's.\<close>

definition connection_ops :: "keypoint list \<Rightarrow> string \<times> string \<Rightarrow> canvas_op list" where
  "connection_ops keypoints c = drawLine keypoints c []"

definition keypoint_ops :: "keypoint \<Rightarrow> canvas_op list" where
  "keypoint_ops kp = drawPoint kp []"

section \<open>The estimation loop (PoseDetection.tsx, detectPose)\<close>

text \<open>
  JavaScript runs one callback at a time, so the loop of one run of the effect is a
  transition system: a state, and one step for each callback the browser may run. A
  thrown value or the reason of a rejected promise is a \<open>js_error\<close>.
\<close>

datatype js_error = JsError string

text \<open>
  The state of one loop. \<open>outstanding\<close> lists the cycles whose \<^verbatim>\<open>estimatePoses\<close> promise
  is not settled, \<open>scheduled\<close> the ids of the frame callbacks requested and neither run
  nor cancelled, \<open>animationFrame\<close> is the variable of that name, \<open>canvas\<close> the overlay's
  context and \<open>console\<close> the arguments of \<^verbatim>\<open>console.error\<close>. The source numbers nothing:
  \<open>cycles\<close> (estimation calls begun), \<open>finished\<close> (cycles whose try/catch statement is
  done) and \<open>drawn\<close> (the cycles that reached the end of their draw step, in order) are
  bookkeeping to state the ordering claims. \<^verbatim>\<open>videoElement\<close> and \<^verbatim>\<open>ctx\<close> are constants of
  the closure, checked before the loop starts; \<open>detectorReady\<close> is
  \<^verbatim>\<open>detectorRef.current\<close> being set.
\<close>

record loop_state =
  detectorReady :: bool
  outstanding :: "nat list"
  scheduled :: "nat list"
  animationFrame :: "nat option"
  nextFrameId :: nat
  cycles :: nat
  finished :: nat
  drawn :: "nat list"
  canvas :: "canvas_op list"
  console :: "js_error list"

text \<open>
  detectPose up to its \<^verbatim>\<open>await\<close>: the guard, then the call of \<^verbatim>\<open>estimatePoses\<close>.
\<close>

definition detectPose :: "loop_state \<Rightarrow> loop_state" where
  "detectPose s =
    (if \<not> detectorReady s then s
     else s\<lparr>outstanding := outstanding s @ [cycles s], cycles := Suc (cycles s)\<rparr>)"

definition requestAnimationFrame :: "loop_state \<Rightarrow> loop_state" where
  "requestAnimationFrame s =
    s\<lparr>scheduled := scheduled s @ [nextFrameId s],
      animationFrame := Some (nextFrameId s),
      nextFrameId := Suc (nextFrameId s)\<rparr>"

text \<open>
  The body of the \<^verbatim>\<open>try\<close> after the \<^verbatim>\<open>await\<close>, for cycle \<open>n\<close>: a rejection is
  thrown there; a list of poses (each its keypoints) is drawn on the cleared canvas.
\<close>

definition try_block :: "nat \<Rightarrow> js_error + keypoint list list \<Rightarrow> loop_state \<Rightarrow> js_error + loop_state" where
  "try_block n r s =
    (case r of
       Inl e \<Rightarrow> Inl e
     | Inr poses \<Rightarrow>
         Inr (s\<lparr>canvas := fold (\<lambda>pose ctx. drawSkeleton ctx pose) poses (canvas s @ [ClearRect]),
                 drawn := drawn s @ [n]\<rparr>))"

text \<open>
  detectPose from the \<^verbatim>\<open>await\<close> on: the \<^verbatim>\<open>catch\<close> clause logs and does not throw
  again, and the next frame is requested after the try/catch statement in both cases.
\<close>

definition resumePose :: "nat \<Rightarrow> js_error + keypoint list list \<Rightarrow> loop_state \<Rightarrow> loop_state" where
  "resumePose n r s =
    (let s1 = (case try_block n r s of
                 Inl e \<Rightarrow> s\<lparr>console := console s @ [e]\<rparr>
               | Inr s' \<Rightarrow> s')
     in requestAnimationFrame (s1\<lparr>finished := Suc (finished s1)\<rparr>))"

text \<open>
  The callbacks: the browser runs a requested frame callback, the promise of a cycle's
  estimation settles, the effect's cleanup cancels the frame in \<open>animationFrame\<close>, the
  detector's cleanup clears \<^verbatim>\<open>detectorRef.current\<close>. A callback that is not pending does
  not run.
\<close>

datatype loop_event =
    Frame nat
  | Estimated nat "js_error + keypoint list list"
  | CancelFrame
  | DetectorCleared

fun loop_step :: "loop_event \<Rightarrow> loop_state \<Rightarrow> loop_state" where
  "loop_step (Frame i) s =
    (if i \<in> set (scheduled s) then detectPose (s\<lparr>scheduled := removeAll i (scheduled s)\<rparr>)
     else s)"
| "loop_step (Estimated n r) s =
    (if n \<in> set (outstanding s) then resumePose n r (s\<lparr>outstanding := removeAll n (outstanding s)\<rparr>)
     else s)"
| "loop_step CancelFrame s =
    (case animationFrame s of
       None \<Rightarrow> s
     | Some i \<Rightarrow> s\<lparr>scheduled := removeAll i (scheduled s)\<rparr>)"
| "loop_step DetectorCleared s = s\<lparr>detectorReady := False\<rparr>"

text \<open>
  The effect starts the loop only with a detector, and calls detectPose once.
\<close>

definition loop_init :: loop_state where
  "loop_init =
    \<lparr>detectorReady = True, outstanding = [], scheduled = [], animationFrame = None,
     nextFrameId = 0, cycles = 0, finished = 0, drawn = [], canvas = [], console = []\<rparr>"

definition loop_run :: "loop_event list \<Rightarrow> loop_state" where
  "loop_run evs = fold loop_step evs (detectPose loop_init)"

text \<open>The invariant of the loop.\<close>

definition loop_inv :: "loop_state \<Rightarrow> bool" where
  "loop_inv s =
    (length (outstanding s) + length (scheduled s) \<le> 1 \<and>
     finished s + length (outstanding s) = cycles s \<and>
     list_all (\<lambda>n. Suc n = cycles s) (outstanding s) \<and>
     list_all (\<lambda>d. d < finished s) (drawn s) \<and>
     sorted_wrt (<) (drawn s))"

section \<open>The shared capture stream (WebcamFeed.tsx)\<close>

text \<open>
  A promise is pending, fulfilled with a value or rejected with a reason. Streams are
  named by numbers: \<^verbatim>\<open>getUserMedia\<close> chooses the stream it resolves to.
\<close>

datatype 'a settle = Pending | Fulfilled 'a | Rejected js_error

text \<open>
  One call of getStream: the \<^verbatim>\<open>getUserMedia\<close> promise its result comes from (the index of
  the promise in \<open>requests\<close>), whether it is the call that created that promise and awaits
  it (otherwise it returned \<^verbatim>\<open>streamInitPromise\<close>), and the state of the promise the call
  returned to its caller.
\<close>

record getStream_call =
  via :: nat
  awaiting :: bool
  outcome :: "nat settle"

text \<open>
  One mounted WebcamFeed: its prop \<^verbatim>\<open>isEnabled\<close>, its video element's \<^verbatim>\<open>srcObject\<close>, its
  state variables, and whether an initializeWebcam of it waits for \<^verbatim>\<open>onloadedmetadata\<close>.
  The props \<^verbatim>\<open>onStreamReady\<close> and \<^verbatim>\<open>onError\<close> belong to the parent and are left out.
\<close>

record webcam_feed =
  isEnabled :: bool
  srcObject :: "nat option"
  isLoading :: bool
  feedError :: "js_error option"
  streamReady :: bool
  awaitingMetadata :: bool

text \<open>
  The module's two variables, what the browser holds (the \<^verbatim>\<open>getUserMedia\<close> promises in
  the order of their creation, the streams whose tracks were stopped), the calls of
  getStream in order, the feeds (an unmounted one is \<open>None\<close>; a feed's number is its
  index), and the initializeWebcam invocations suspended at \<^verbatim>\<open>await getStream()\<close>, each a
  feed and the call it awaits.
\<close>

record capture_state =
  globalStream :: "nat option"
  streamInitPromise :: "nat option"
  requests :: "nat settle list"
  calls :: "getStream_call list"
  stopped :: "nat list"
  feeds :: "webcam_feed option list"
  waiting :: "(nat \<times> nat) list"

definition request_at :: "capture_state \<Rightarrow> nat \<Rightarrow> nat settle" where
  "request_at s p = (if p < length (requests s) then requests s ! p else Pending)"

definition feed_at :: "capture_state \<Rightarrow> nat \<Rightarrow> webcam_feed option" where
  "feed_at s i = (if i < length (feeds s) then feeds s ! i else None)"

definition upd_feed :: "nat \<Rightarrow> (webcam_feed \<Rightarrow> webcam_feed) \<Rightarrow> capture_state \<Rightarrow> capture_state" where
  "upd_feed i g s = s\<lparr>feeds := (feeds s)[i := map_option g (feed_at s i)]\<rparr>"

text \<open>
  getStream up to its \<^verbatim>\<open>await\<close>. With \<^verbatim>\<open>streamInitPromise\<close> set, the call returns that
  promise: its result is the promise's. Otherwise it calls \<^verbatim>\<open>getUserMedia\<close>, stores the
  new promise and awaits it.
\<close>

definition getStream :: "capture_state \<Rightarrow> capture_state" where
  "getStream s =
    (case streamInitPromise s of
       Some p \<Rightarrow>
         s\<lparr>calls := calls s @ [\<lparr>via = p, awaiting = False, outcome = request_at s p\<rparr>]\<rparr>
     | None \<Rightarrow>
         s\<lparr>streamInitPromise := Some (length (requests s)),
           requests := requests s @ [Pending],
           calls := calls s @ [\<lparr>via = length (requests s), awaiting = True, outcome = Pending\<rparr>]\<rparr>)"

text \<open>
  initializeWebcam after \<^verbatim>\<open>await getStream()\<close>, for feed \<open>i\<close>. \<^verbatim>\<open>videoRef.current\<close> is set
  while the feed is mounted; \<^verbatim>\<open>stream.active\<close> holds while the stream's tracks are not
  stopped. A pending result resumes nothing.
\<close>

definition resumeInit :: "nat \<Rightarrow> nat settle \<Rightarrow> capture_state \<Rightarrow> capture_state" where
  "resumeInit i r s =
    (case r of
       Pending \<Rightarrow> s
     | Fulfilled st \<Rightarrow>
         if st \<notin> set (stopped s)
         then upd_feed i (\<lambda>f. f\<lparr>srcObject := Some st, awaitingMetadata := True\<rparr>) s
         else s
     | Rejected e \<Rightarrow> upd_feed i (\<lambda>f. f\<lparr>feedError := Some e, isLoading := False\<rparr>) s)"

text \<open>
  initializeWebcam of feed \<open>i\<close>, up to its \<^verbatim>\<open>await\<close>. A call of getStream that returned a
  settled promise resumes at once.
\<close>

definition initializeWebcam :: "nat \<Rightarrow> capture_state \<Rightarrow> capture_state" where
  "initializeWebcam i s =
    (case feed_at s i of
       None \<Rightarrow> s
     | Some f \<Rightarrow>
         let s0 = upd_feed i (\<lambda>f. f\<lparr>isLoading := True, feedError := None\<rparr>) s in
         if \<not> isEnabled f
         then upd_feed i (\<lambda>f. f\<lparr>srcObject := None, isLoading := False\<rparr>) s0
         else
           let s1 = getStream s0; r = outcome (last (calls s1)) in
           if r = Pending then s1\<lparr>waiting := waiting s1 @ [(i, length (calls s0))]\<rparr>
           else resumeInit i r s1)"

text \<open>
  \<^verbatim>\<open>cleanup\<close> of the second effect: with a stream, stop its tracks and clear both
  variables.
\<close>

definition cleanup :: "capture_state \<Rightarrow> capture_state" where
  "cleanup s =
    (case globalStream s of
       None \<Rightarrow> s
     | Some g \<Rightarrow> s\<lparr>stopped := stopped s @ [g], globalStream := None, streamInitPromise := None\<rparr>)"

text \<open>
  A \<^verbatim>\<open>getUserMedia\<close> promise settles. First getStream resumes in the call that awaits
  the promise: it stores the stream and returns it, or clears \<^verbatim>\<open>streamInitPromise\<close> and
  throws the reason again. Then every call through this promise has its result, and the
  initializeWebcam invocations waiting for these calls resume, in the order of the calls.
\<close>

definition settle_module :: "nat \<Rightarrow> js_error + nat \<Rightarrow> capture_state \<Rightarrow> capture_state" where
  "settle_module p r s =
    (case r of
       Inr st \<Rightarrow> s\<lparr>requests := (requests s)[p := Fulfilled st], globalStream := Some st\<rparr>
     | Inl e \<Rightarrow> s\<lparr>requests := (requests s)[p := Rejected e], streamInitPromise := None\<rparr>)"

definition settle_call :: "nat \<Rightarrow> js_error + nat \<Rightarrow> capture_state \<Rightarrow> getStream_call \<Rightarrow> getStream_call" where
  "settle_call p r s c =
    (if via c \<noteq> p then c
     else if awaiting c
     then c\<lparr>outcome := (case r of Inr st \<Rightarrow> Fulfilled st | Inl e \<Rightarrow> Rejected e)\<rparr>
     else c\<lparr>outcome := request_at s p\<rparr>)"

definition call_at :: "capture_state \<Rightarrow> nat \<Rightarrow> getStream_call option" where
  "call_at s k = (if k < length (calls s) then Some (calls s ! k) else None)"

definition resume_waiting :: "nat \<Rightarrow> capture_state \<Rightarrow> nat \<times> nat \<Rightarrow> capture_state \<Rightarrow> capture_state" where
  "resume_waiting p s0 w s =
    (case call_at s0 (snd w) of
       None \<Rightarrow> s
     | Some c \<Rightarrow> if via c = p then resumeInit (fst w) (outcome c) s else s)"

definition still_waiting :: "nat \<Rightarrow> capture_state \<Rightarrow> nat \<times> nat \<Rightarrow> bool" where
  "still_waiting p s w = (case call_at s (snd w) of None \<Rightarrow> False | Some c \<Rightarrow> via c \<noteq> p)"

definition settle :: "nat \<Rightarrow> js_error + nat \<Rightarrow> capture_state \<Rightarrow> capture_state" where
  "settle p r s =
    (if p < length (requests s) \<and> requests s ! p = Pending
     then
       let s1 = settle_module p r s;
           s2 = s1\<lparr>calls := map (settle_call p r s1) (calls s1)\<rparr>;
           s3 = fold (resume_waiting p s2) (waiting s2) s2
       in s3\<lparr>waiting := filter (still_waiting p s2) (waiting s2)\<rparr>
     else s)"

text \<open>
  What the browser and React may do: mount a feed with its prop (both effects run, the
  first calls initializeWebcam), change the prop of a mounted feed (the first effect's
  cleanup, then the effect again), press "Try Again" (shown with an error), unmount a
  feed (both cleanups), fire \<^verbatim>\<open>beforeunload\<close> (a mounted feed listens), settle a
  \<^verbatim>\<open>getUserMedia\<close> promise, fire \<^verbatim>\<open>onloadedmetadata\<close> on a feed's video element.
\<close>

datatype capture_event =
    Mount bool
  | SetEnabled nat bool
  | Retry nat
  | Unmount nat
  | BeforeUnload
  | Settle nat "js_error + nat"
  | LoadedMetadata nat

definition new_feed :: "bool \<Rightarrow> webcam_feed" where
  "new_feed en =
    \<lparr>isEnabled = en, srcObject = None, isLoading = True, feedError = None,
     streamReady = False, awaitingMetadata = False\<rparr>"

fun capture_step :: "capture_event \<Rightarrow> capture_state \<Rightarrow> capture_state" where
  "capture_step (Mount en) s =
    initializeWebcam (length (feeds s)) (s\<lparr>feeds := feeds s @ [Some (new_feed en)]\<rparr>)"
| "capture_step (SetEnabled i en) s =
    (case feed_at s i of
       None \<Rightarrow> s
     | Some f \<Rightarrow>
         if isEnabled f = en then s
         else initializeWebcam i (upd_feed i (\<lambda>f. f\<lparr>srcObject := None, isEnabled := en\<rparr>) s))"
| "capture_step (Retry i) s =
    (case feed_at s i of
       None \<Rightarrow> s
     | Some f \<Rightarrow> if feedError f = None then s else initializeWebcam i s)"
| "capture_step (Unmount i) s =
    (case feed_at s i of
       None \<Rightarrow> s
     | Some f \<Rightarrow>
         let s1 = cleanup (upd_feed i (\<lambda>f. f\<lparr>srcObject := None\<rparr>) s)
         in s1\<lparr>feeds := (feeds s1)[i := None]\<rparr>)"
| "capture_step BeforeUnload s =
    (if list_ex (\<lambda>f. f \<noteq> None) (feeds s) then cleanup s else s)"
| "capture_step (Settle p r) s = settle p r s"
| "capture_step (LoadedMetadata i) s =
    (case feed_at s i of
       None \<Rightarrow> s
     | Some f \<Rightarrow>
         if awaitingMetadata f
         then upd_feed i (\<lambda>f. f\<lparr>isLoading := False, streamReady := True, awaitingMetadata := False\<rparr>) s
         else s)"

definition capture_init :: capture_state where
  "capture_init =
    \<lparr>globalStream = None, streamInitPromise = None, requests = [], calls = [],
     stopped = [], feeds = [], waiting = []\<rparr>"

definition capture_run :: "capture_event list \<Rightarrow> capture_state" where
  "capture_run evs = fold capture_step evs capture_init"

text \<open>The number of \<^verbatim>\<open>getUserMedia\<close> promises that are not settled.\<close>

definition in_flight :: "capture_state \<Rightarrow> nat" where
  "in_flight s = length (filter (\<lambda>r. r = Pending) (requests s))"

text \<open>The feeds that show a stream: the consumers attached to it.\<close>

definition consumers :: "capture_state \<Rightarrow> nat \<Rightarrow> nat" where
  "consumers s st =
    length (filter (\<lambda>f. case f of None \<Rightarrow> False | Some w \<Rightarrow> srcObject w = Some st) (feeds s))"

text \<open>The invariant of the module's variables.\<close>

definition capture_inv :: "capture_state \<Rightarrow> bool" where
  "capture_inv s =
    ((case streamInitPromise s of
        None \<Rightarrow> in_flight s = 0 \<and> globalStream s = None
      | Some p \<Rightarrow>
          p < length (requests s) \<and>
          (case requests s ! p of
             Pending \<Rightarrow> in_flight s = 1 \<and> globalStream s = None   
           | Fulfilled st \<Rightarrow> in_flight s = 0
           | Rejected e \<Rightarrow> False)) \<and>
     list_all (\<lambda>c. via c < length (requests s) \<and> outcome c = requests s ! via c) (calls s))"

text \<open>The state of a promise that settled with a reason or a stream.\<close>

definition settled :: "js_error + nat \<Rightarrow> nat settle" where
  "settled r = (case r of Inr st \<Rightarrow> Fulfilled st | Inl e \<Rightarrow> Rejected e)"

text \<open>The part of the state that getStream and \<^verbatim>\<open>cleanup\<close> read and write.\<close>

definition module_of :: "capture_state \<Rightarrow> nat option \<times> nat option \<times> nat settle list \<times> getStream_call list" where
  "module_of s = (globalStream s, streamInitPromise s, requests s, calls s)"

section \<open>Playback of the instructor video (VideoContainer.tsx)\<close>

text \<open>
  Times are JavaScript numbers. The handlers assign them, compare them and take
  \<^verbatim>\<open>Math.max\<close> and \<^verbatim>\<open>Math.min\<close> of them, which is exact on doubles; they are modelled as
  reals. The one sum, \<^verbatim>\<open>currentTime + seconds\<close>, is rounded in the source; the facts
  below hold of any value of that sum. The video element is what the handlers write to
  it: the value assigned to \<^verbatim>\<open>currentTime\<close> and whether \<^verbatim>\<open>pause()\<close> or \<^verbatim>\<open>play()\<close> came
  last.
\<close>

record video_element =
  el_currentTime :: real
  el_paused :: bool

text \<open>
  The state variables of VideoContainer that the playback handlers read and write, and
  \<^verbatim>\<open>videoRef.current\<close>.
\<close>

record playback =
  isPlaying :: bool
  currentTime :: real
  duration :: real
  videoError :: "js_error option"
  isEnded :: bool
  isVideoLoading :: bool
  videoRef :: "video_element option"

text \<open>
  handleReset: with an element and no error, rewind, pause and clear \<^verbatim>\<open>isEnded\<close>.
\<close>

definition handleReset :: "playback \<Rightarrow> playback" where
  "handleReset s =
    (case videoRef s of
       None \<Rightarrow> s
     | Some el \<Rightarrow>
         if videoError s \<noteq> None then s
         else s\<lparr>videoRef := Some (el\<lparr>el_currentTime := 0, el_paused := True\<rparr>),
                currentTime := 0, isPlaying := False, isEnded := False\<rparr>)"

text \<open>
  handlePlayPause. The last call, \<^verbatim>\<open>setIsPlaying(!isPlaying)\<close>, uses the value of
  \<^verbatim>\<open>isPlaying\<close> the handler started with and overrides handleReset's
  \<^verbatim>\<open>setIsPlaying(false)\<close>. A rejection of \<^verbatim>\<open>play()\<close> arrives later, as handlePlayRejected.
\<close>

definition handlePlayPause :: "playback \<Rightarrow> playback" where
  "handlePlayPause s =
    (case videoRef s of
       None \<Rightarrow> s
     | Some el \<Rightarrow>
         if videoError s \<noteq> None \<or> isVideoLoading s then s
         else if isPlaying s
         then s\<lparr>videoRef := Some (el\<lparr>el_paused := True\<rparr>), isPlaying := False\<rparr>
         else
           let s1 = (if isEnded s then handleReset s else s) in
           s1\<lparr>videoRef := map_option (\<lambda>e. e\<lparr>el_paused := False\<rparr>) (videoRef s1),
              isPlaying := True\<rparr>)"

definition handlePlayRejected :: "string \<Rightarrow> playback \<Rightarrow> playback" where
  "handlePlayRejected msg s =
    s\<lparr>videoError := Some (JsError (''Failed to play video: '' @ msg)), isPlaying := False\<rparr>"

text \<open>
  handleSeek. \<^verbatim>\<open>value[0]\<close> of an empty array is \<^verbatim>\<open>undefined\<close>, and the assignment of
  \<^verbatim>\<open>undefined\<close> to the element's \<^verbatim>\<open>currentTime\<close> throws a TypeError before any state is set.
  The time is stored as given: the handler has no bound on it but the comparison with
  \<^verbatim>\<open>duration\<close> that clears \<^verbatim>\<open>isEnded\<close>.
\<close>

datatype seek_error = TypeError

definition handleSeek :: "real list \<Rightarrow> playback \<Rightarrow> seek_error + playback" where
  "handleSeek val s =
    (case videoRef s of
       None \<Rightarrow> Inr s
     | Some el \<Rightarrow>
         if videoError s \<noteq> None then Inr s
         else
           (case val of
              [] \<Rightarrow> Inl TypeError
            | newTime # _ \<Rightarrow>
                Inr (s\<lparr>videoRef := Some (el\<lparr>el_currentTime := newTime\<rparr>),
                       currentTime := newTime,
                       isEnded := (if newTime < duration s then False else isEnded s)\<rparr>)))"

text \<open>
  handleSeekRelative: \<^verbatim>\<open>Math.max(0, Math.min(duration, currentTime + seconds))\<close>, handed
  to handleSeek.
\<close>

definition handleSeekRelative :: "real \<Rightarrow> playback \<Rightarrow> seek_error + playback" where
  "handleSeekRelative seconds s =
    (case videoRef s of
       None \<Rightarrow> Inr s
     | Some el \<Rightarrow>
         if videoError s \<noteq> None then Inr s
         else handleSeek [max 0 (min (duration s) (currentTime s + seconds))] s)"

definition handleTimeUpdate :: "real \<Rightarrow> playback \<Rightarrow> playback" where
  "handleTimeUpdate t s = s\<lparr>currentTime := t\<rparr>"

definition handleDurationChange :: "real \<Rightarrow> playback \<Rightarrow> playback" where
  "handleDurationChange newDuration s = s\<lparr>duration := newDuration\<rparr>"

definition handleVideoError :: "js_error \<Rightarrow> playback \<Rightarrow> playback" where
  "handleVideoError e s =
    s\<lparr>videoError := Some e, isPlaying := False, isEnded := False, isVideoLoading := False\<rparr>"

definition handleVideoEnded :: "playback \<Rightarrow> playback" where
  "handleVideoEnded s = s\<lparr>isPlaying := False, isEnded := True\<rparr>"

definition handleRetryVideo :: "playback \<Rightarrow> playback" where
  "handleRetryVideo s = s\<lparr>videoError := None, isVideoLoading := True\<rparr>"

definition handleVideoLoaded :: "playback \<Rightarrow> playback" where
  "handleVideoLoaded s = s\<lparr>isVideoLoading := False\<rparr>"

text \<open>The state of a mounted VideoContainer before the video has loaded.\<close>

definition playback_init :: playback where
  "playback_init =
    \<lparr>isPlaying = False, currentTime = 0, duration = 0, videoError = None, isEnded = False,
     isVideoLoading = True, videoRef = Some \<lparr>el_currentTime = 0, el_paused = True\<rparr>\<rparr>"

text \<open>The spec's clamp of a target into the range from 0 to the duration.\<close>

definition clamp_time :: "real \<Rightarrow> real \<Rightarrow> real" where
  "clamp_time d t = max 0 (min d t)"

text \<open>
  A handler that threw leaves the state as it was.
\<close>

definition after_seek :: "playback \<Rightarrow> seek_error + playback \<Rightarrow> playback" where
  "after_seek s r = (case r of Inl e \<Rightarrow> s | Inr s' \<Rightarrow> s')"

text \<open>
  The scenario of the spec: a source of duration 120 is loaded, play is pressed, and the
  seek handler is called with 130.
\<close>

definition seek_scenario :: "seek_error + playback" where
  "seek_scenario =
    handleSeek [130] (handlePlayPause (handleVideoLoaded (handleDurationChange 120 playback_init)))"

subsection \<open>The seek handler of InstructorVideo\<close>

text \<open>
  InstructorVideo keeps its own \<^verbatim>\<open>currentTime\<close> for its slider; its handleSeek stores
  \<^verbatim>\<open>value[0]\<close> in the element and in the state, with an element mounted.
\<close>

record instructor_video =
  iv_isPlaying :: bool
  iv_currentTime :: real
  iv_duration :: real
  iv_videoRef :: "video_element option"

definition iv_handleSeek :: "real list \<Rightarrow> instructor_video \<Rightarrow> seek_error + instructor_video" where
  "iv_handleSeek val s =
    (case iv_videoRef s of
       None \<Rightarrow> Inr s
     | Some el \<Rightarrow>
         (case val of
            [] \<Rightarrow> Inl TypeError
          | t # _ \<Rightarrow>
              Inr (s\<lparr>iv_videoRef := Some (el\<lparr>el_currentTime := t\<rparr>), iv_currentTime := t\<rparr>)))"

section \<open>The three machines side by side\<close>

text \<open>
  The page holds the playback state, the capture state and the loop. The handlers of
  each are closures over their own component's variables: an event of one machine steps
  that machine alone.
\<close>

record app_state =
  app_playback :: playback
  app_capture :: capture_state
  app_loop :: loop_state

datatype playback_event =
    PlayPause
  | Reset
  | Seek "real list"
  | SeekRelative real
  | TimeUpdate real
  | DurationChange real
  | VideoError js_error
  | VideoEnded
  | RetryVideo
  | VideoLoaded
  | PlayRejected string

fun playback_step :: "playback_event \<Rightarrow> playback \<Rightarrow> playback" where
  "playback_step PlayPause s = handlePlayPause s"
| "playback_step Reset s = handleReset s"
| "playback_step (Seek v) s = after_seek s (handleSeek v s)"
| "playback_step (SeekRelative d) s = after_seek s (handleSeekRelative d s)"
| "playback_step (TimeUpdate t) s = handleTimeUpdate t s"
| "playback_step (DurationChange d) s = handleDurationChange d s"
| "playback_step (VideoError e) s = handleVideoError e s"
| "playback_step VideoEnded s = handleVideoEnded s"
| "playback_step RetryVideo s = handleRetryVideo s"
| "playback_step VideoLoaded s = handleVideoLoaded s"
| "playback_step (PlayRejected msg) s = handlePlayRejected msg s"

datatype app_event =
    PlaybackEvent playback_event
  | CaptureEvent capture_event
  | LoopEvent loop_event

fun app_step :: "app_event \<Rightarrow> app_state \<Rightarrow> app_state" where
  "app_step (PlaybackEvent e) a = a\<lparr>app_playback := playback_step e (app_playback a)\<rparr>"
| "app_step (CaptureEvent e) a = a\<lparr>app_capture := capture_step e (app_capture a)\<rparr>"
| "app_step (LoopEvent e) a = a\<lparr>app_loop := loop_step e (app_loop a)\<rparr>"

section \<open>The overlay component: the effect and its re-runs (PoseDetection.tsx)\<close>













section \<open>Facts about the renderer\<close>

lemma above_threshold_truthy: "above_threshold s \<Longrightarrow> truthy s"
  by (cases s) (auto simp: above_threshold_def truthy_def)

lemma above_threshold_iff: "above_threshold s = (\<exists>v. s = Some v \<and> v > 3 / 10)"
  by (cases s) (auto simp: above_threshold_def)

lemma drawPoint_eq:
  "drawPoint kp ctx = (if above_threshold (kp_score kp) then ctx @ point_ops kp else ctx)"
  using above_threshold_truthy [of "kp_score kp"] by (auto simp: drawPoint_def)

lemma visible_iff:
  "visible kps c =
    (\<exists>startPoint endPoint.
       find_named (fst c) kps = Some startPoint \<and>
       find_named (snd c) kps = Some endPoint \<and>
       above_threshold (kp_score startPoint) \<and> above_threshold (kp_score endPoint))"
  by (auto simp: visible_def split: option.splits)

lemma drawLine_eq:
  "drawLine kps c ctx =
    (if visible kps c
     then ctx @ line_ops (the (find_named (fst c) kps)) (the (find_named (snd c) kps))
     else ctx)"
  using above_threshold_truthy
  by (auto simp: drawLine_def visible_def split: option.splits)

lemma drawPoint_append: "drawPoint kp ctx = ctx @ keypoint_ops kp"
  by (simp add: drawPoint_def keypoint_ops_def)

lemma drawLine_append: "drawLine kps c ctx = ctx @ connection_ops kps c"
  by (simp add: drawLine_def connection_ops_def split: option.splits)

lemma fold_append_ops:
  assumes "\<And>x acc. f x acc = acc @ g x"
  shows "fold f xs acc = acc @ concat (map g xs)"
  using assms by (induction xs arbitrary: acc) simp_all

lemma drawSkeleton_ops:
  "drawSkeleton ctx kps =
    ctx @ concat (map keypoint_ops kps) @ concat (map (connection_ops kps) connections)"
  unfolding drawSkeleton_def
  by (simp add: fold_append_ops [where g = keypoint_ops] fold_append_ops [where g = "connection_ops kps"]
      drawPoint_append drawLine_append)

lemma keypoint_ops_eq:
  "keypoint_ops kp = (if above_threshold (kp_score kp) then point_ops kp else [])"
  by (simp add: keypoint_ops_def drawPoint_eq)

lemma connection_ops_eq:
  "connection_ops kps c =
    (if visible kps c
     then line_ops (the (find_named (fst c) kps)) (the (find_named (snd c) kps)) else [])"
  by (simp add: connection_ops_def drawLine_eq)


lemma fills_append: "fills (a @ b) = fills a + fills b"
  by (simp add: fills_def)


lemma fills_concat_lines: "fills (concat (map (connection_ops kps) cs)) = 0"
  by (induction cs) (simp_all add: fills_def connection_ops_eq line_ops_def)


lemma fills_concat_points:
  "fills (concat (map keypoint_ops kps)) = length (filter (\<lambda>kp. above_threshold (kp_score kp)) kps)"
  by (induction kps) (simp_all add: fills_def keypoint_ops_eq point_ops_def)

lemma find_update:
  assumes "i < length xs" "P y = P (xs ! i)"
  shows "find P (xs[i := y]) = find P xs \<or> (find P xs = Some (xs ! i) \<and> find P (xs[i := y]) = Some y)"
  using assms
proof (induction xs arbitrary: i)
  case Nil
  then show ?case by simp
next
  case (Cons x xs)
  show ?case
  proof (cases i)
    case 0
    with Cons.prems show ?thesis by simp
  next
    case (Suc j)
    with Cons.prems Cons.IH [of j] show ?thesis by auto
  qed
qed

lemma connection_ops_nonempty:
  "(connection_ops kps c \<noteq> []) = visible kps c"
  by (simp add: connection_ops_eq line_ops_def)

lemma keypoint_ops_absent: "\<not> truthy (kp_score kp) \<Longrightarrow> keypoint_ops kp = []"
  using above_threshold_truthy [of "kp_score kp"] by (auto simp: keypoint_ops_eq)

lemma connection_ops_absent:
  assumes "\<not> truthy (kp_score kp)"
    and "find_named (fst c) kps = Some kp \<or> find_named (snd c) kps = Some kp"
  shows "connection_ops kps c = []"
  using assms by (auto simp: connection_ops_def drawLine_def split: option.splits)

lemma connection_ops_move:
  assumes "i < length kps" "\<not> truthy (kp_score (kps ! i))"
  shows "connection_ops (kps[i := (kps ! i)\<lparr>kp_x := x, kp_y := y\<rparr>]) c = connection_ops kps c"
proof -
  let ?kp' = "(kps ! i)\<lparr>kp_x := x, kp_y := y\<rparr>"
  let ?kps' = "kps[i := ?kp']"
  have absent': "\<not> truthy (kp_score ?kp')" using assms(2) by simp
  have upd: "find_named l ?kps' = find_named l kps \<or>
      (find_named l kps = Some (kps ! i) \<and> find_named l ?kps' = Some ?kp')" for l
    unfolding find_named_def by (rule find_update) (use assms(1) in simp_all)
  consider (same) "find_named (fst c) ?kps' = find_named (fst c) kps"
      "find_named (snd c) ?kps' = find_named (snd c) kps"
    | (start) "find_named (fst c) kps = Some (kps ! i)" "find_named (fst c) ?kps' = Some ?kp'"
    | (finish) "find_named (snd c) kps = Some (kps ! i)" "find_named (snd c) ?kps' = Some ?kp'"
    using upd [of "fst c"] upd [of "snd c"] by blast
  then show ?thesis
  proof cases
    case same
    then show ?thesis by (simp add: connection_ops_def drawLine_def)
  next
    case start
    then show ?thesis
      using connection_ops_absent [OF assms(2), of c kps]
        connection_ops_absent [OF absent', of c ?kps'] by simp
  next
    case finish
    then show ?thesis
      using connection_ops_absent [OF assms(2), of c kps]
        connection_ops_absent [OF absent', of c ?kps'] by simp
  qed
qed

lemma keypoint_ops_move:
  assumes "i < length kps" "\<not> truthy (kp_score (kps ! i))"
  shows "map keypoint_ops (kps[i := (kps ! i)\<lparr>kp_x := x, kp_y := y\<rparr>]) = map keypoint_ops kps"
proof -
  have "keypoint_ops ((kps ! i)\<lparr>kp_x := x, kp_y := y\<rparr>) = keypoint_ops (kps ! i)"
    using assms(2) by (simp add: keypoint_ops_absent)
  then show ?thesis
    using assms(1) by (simp add: map_update list_update_same_conv)
qed

section \<open>Facts about the estimation loop\<close>

lemma loop_inv_start: "loop_inv (detectPose loop_init)"
  by (simp add: loop_inv_def detectPose_def loop_init_def)

lemma only_member:
  "length xs + length ys \<le> 1 \<Longrightarrow> y \<in> set ys \<Longrightarrow> ys = [y] \<and> xs = []"
  by (cases ys; cases xs) auto

lemma loop_inv_step: "loop_inv s \<Longrightarrow> loop_inv (loop_step ev s)"
proof (cases ev)
  case (Frame i)
  assume inv: "loop_inv s"
  show ?thesis
  proof (cases "i \<in> set (scheduled s)")
    case True
    with inv have "scheduled s = [i]" "outstanding s = []"
      using only_member [of "outstanding s" "scheduled s" i] by (auto simp: loop_inv_def)
    with inv Frame show ?thesis
      by (auto simp: loop_inv_def detectPose_def)
  next
    case False
    with inv Frame show ?thesis by simp
  qed
next
  case (Estimated n r)
  assume inv: "loop_inv s"
  show ?thesis
  proof (cases "n \<in> set (outstanding s)")
    case True
    with inv have *: "outstanding s = [n]" "scheduled s = []"
      using only_member [of "scheduled s" "outstanding s" n] by (auto simp: loop_inv_def)
    with inv have "Suc n = cycles s" "finished s = n"
      by (auto simp: loop_inv_def)
    with inv * Estimated show ?thesis
      by (cases r)
         (auto simp: loop_inv_def resumePose_def try_block_def requestAnimationFrame_def
            Let_def sorted_wrt_append list_all_iff less_Suc_eq)
  next
    case False
    with inv Estimated show ?thesis by simp
  qed
next
  case CancelFrame
  assume inv: "loop_inv s"
  have "length (removeAll i (scheduled s)) \<le> length (scheduled s)" for i
    by (simp add: removeAll_filter_not_eq)
  then have "length (outstanding s) + length (removeAll i (scheduled s)) \<le> 1" for i
    using inv unfolding loop_inv_def by (meson add_left_mono le_trans)
  with inv CancelFrame show ?thesis
    by (auto simp: loop_inv_def split: option.splits)
next
  case DetectorCleared
  assume "loop_inv s"
  with DetectorCleared show ?thesis by (simp add: loop_inv_def)
qed

lemma loop_inv_fold: "loop_inv s \<Longrightarrow> loop_inv (fold loop_step evs s)"
  by (induction evs arbitrary: s) (simp_all add: loop_inv_step)

lemma loop_inv_run: "loop_inv (loop_run evs)"
  unfolding loop_run_def by (rule loop_inv_fold [OF loop_inv_start])

lemma loop_inv_outstanding:
  assumes "loop_inv s" "n \<in> set (outstanding s)"
  shows "outstanding s = [n] \<and> scheduled s = [] \<and> cycles s = Suc n \<and> finished s = n"
proof -
  from assms have *: "outstanding s = [n]" "scheduled s = []"
    using only_member [of "scheduled s" "outstanding s" n] by (auto simp: loop_inv_def)
  with assms(1) show ?thesis by (auto simp: loop_inv_def)
qed

lemma loop_inv_scheduled:
  assumes "loop_inv s" "i \<in> set (scheduled s)"
  shows "scheduled s = [i] \<and> outstanding s = [] \<and> finished s = cycles s"
proof -
  from assms have *: "scheduled s = [i]" "outstanding s = []"
    using only_member [of "outstanding s" "scheduled s" i] by (auto simp: loop_inv_def)
  with assms(1) show ?thesis by (auto simp: loop_inv_def)
qed

lemma cycles_step:
  assumes "loop_inv s" "cycles (loop_step ev s) \<noteq> cycles s"
  shows "outstanding s = [] \<and> finished s = cycles s \<and> ev \<in> Frame ` set (scheduled s)"
proof (cases ev)
  case (Frame i)
  with assms(2) have "i \<in> set (scheduled s)" by (auto split: if_splits)
  with loop_inv_scheduled [OF assms(1)] Frame show ?thesis by auto
next
  case (Estimated n r)
  with assms(2) show ?thesis
    by (cases r) (auto simp: resumePose_def try_block_def requestAnimationFrame_def Let_def
        split: if_splits)
next
  case CancelFrame
  with assms(2) show ?thesis by (auto split: option.splits)
next
  case DetectorCleared
  with assms(2) show ?thesis by simp
qed






section \<open>Facts about the shared capture stream\<close>

lemma capture_inv_cong: "module_of s = module_of s' \<Longrightarrow> capture_inv s = capture_inv s'"
  by (simp add: module_of_def capture_inv_def in_flight_def split: option.split settle.split)

lemma module_of_upd_feed [simp]: "module_of (upd_feed i g s) = module_of s"
  by (simp add: module_of_def upd_feed_def)

lemma module_of_resumeInit [simp]: "module_of (resumeInit i r s) = module_of s"
  by (cases r) (simp_all add: resumeInit_def)

lemma module_of_waiting [simp]: "module_of (s\<lparr>waiting := w\<rparr>) = module_of s"
  by (simp add: module_of_def)

lemma module_of_feeds [simp]: "module_of (s\<lparr>feeds := w\<rparr>) = module_of s"
  by (simp add: module_of_def)

lemma module_of_getStream_cong:
  "module_of s = module_of s' \<Longrightarrow> module_of (getStream s) = module_of (getStream s')"
  by (auto simp: module_of_def getStream_def request_at_def split: option.splits)

lemma module_of_cleanup_cong:
  "module_of s = module_of s' \<Longrightarrow> module_of (cleanup s) = module_of (cleanup s')"
  by (auto simp: module_of_def cleanup_def split: option.splits)

lemma module_of_initializeWebcam:
  "module_of (initializeWebcam i s) = module_of s \<or>
   module_of (initializeWebcam i s) = module_of (getStream s)"
proof (cases "feed_at s i")
  case None
  then show ?thesis by (simp add: initializeWebcam_def)
next
  case (Some f)
  have "module_of (getStream (upd_feed i g s)) = module_of (getStream s)" for g
    by (rule module_of_getStream_cong) simp
  with Some show ?thesis
    by (auto simp: initializeWebcam_def Let_def)
qed

lemma module_of_fold_resume [simp]:
  "module_of (fold (resume_waiting p s0) ws s) = module_of s"
  by (induction ws arbitrary: s) (simp_all add: resume_waiting_def split: option.splits)

lemma count_pending_update:
  assumes "p < length xs" "xs ! p = Pending" "y \<noteq> Pending"
  shows "Suc (length (filter (\<lambda>r. r = Pending) (xs[p := y]))) = length (filter (\<lambda>r. r = Pending) xs)"
  using assms
proof (induction xs arbitrary: p)
  case Nil
  then show ?case by simp
next
  case (Cons x xs)
  then show ?case by (cases p) auto
qed

lemma capture_inv_getStream: "capture_inv s \<Longrightarrow> capture_inv (getStream s)"
  by (auto simp: capture_inv_def getStream_def in_flight_def request_at_def nth_append
      list_all_iff split: option.splits settle.splits)

lemma capture_inv_cleanup: "capture_inv s \<Longrightarrow> capture_inv (cleanup s)"
  by (auto simp: capture_inv_def cleanup_def in_flight_def split: option.splits settle.splits)

lemma capture_inv_initializeWebcam:
  assumes "capture_inv s"
  shows "capture_inv (initializeWebcam i s)"
proof -
  consider (same) "module_of (initializeWebcam i s) = module_of s"
    | (call) "module_of (initializeWebcam i s) = module_of (getStream s)"
    using module_of_initializeWebcam by blast
  then show ?thesis
  proof cases
    case same
    then show ?thesis using capture_inv_cong assms by blast
  next
    case call
    then show ?thesis using capture_inv_cong capture_inv_getStream [OF assms] by blast
  qed
qed

lemma filter_pos: "p < length xs \<Longrightarrow> P (xs ! p) \<Longrightarrow> 0 < length (filter P xs)"
  by (induction xs arbitrary: p) (auto simp: nth_Cons split: nat.splits)

lemma filter_one_unique:
  "length (filter P xs) = 1 \<Longrightarrow> p < length xs \<Longrightarrow> q < length xs \<Longrightarrow> P (xs ! p) \<Longrightarrow> P (xs ! q)
    \<Longrightarrow> p = q"
proof (induction xs arbitrary: p q)
  case Nil
  then show ?case by simp
next
  case (Cons x xs)
  show ?case
  proof (cases "P x")
    case True
    with Cons.prems(1) have none: "length (filter P xs) = 0" by simp
    have "p = 0"
    proof (cases p)
      case (Suc p')
      have "0 < length (filter P xs)"
        using Suc Cons.prems(2,4) filter_pos [of p' xs P] by simp
      with none show ?thesis by simp
    qed simp
    moreover have "q = 0"
    proof (cases q)
      case (Suc q')
      have "0 < length (filter P xs)"
        using Suc Cons.prems(3,5) filter_pos [of q' xs P] by simp
      with none show ?thesis by simp
    qed simp
    ultimately show ?thesis by simp
  next
    case False
    from False Cons.prems(4) obtain p' where p: "p = Suc p'" by (cases p) auto
    from False Cons.prems(5) obtain q' where q: "q = Suc q'" by (cases q) auto
    have "p' = q'"
    proof (rule Cons.IH)
      show "length (filter P xs) = 1" using Cons.prems(1) False by simp
      show "p' < length xs" using Cons.prems(2) p by simp
      show "q' < length xs" using Cons.prems(3) q by simp
      show "P (xs ! p')" using Cons.prems(4) p by simp
      show "P (xs ! q')" using Cons.prems(5) q by simp
    qed
    with p q show ?thesis by simp
  qed
qed

lemma pending_is_current:
  assumes "capture_inv s" "p < length (requests s)" "requests s ! p = Pending"
  shows "streamInitPromise s = Some p \<and> in_flight s = 1 \<and> globalStream s = None"
proof -
  from assms(2,3) have pos: "in_flight s > 0"
    unfolding in_flight_def by (intro filter_pos [of p]) auto
  with assms(1) obtain q where q: "streamInitPromise s = Some q" "q < length (requests s)"
    "requests s ! q = Pending" "in_flight s = 1" "globalStream s = None"
    by (auto simp: capture_inv_def split: option.splits settle.splits)
  from q(4) have "length (filter (\<lambda>r. r = Pending) (requests s)) = 1"
    by (simp add: in_flight_def)
  from filter_one_unique [OF this q(2) assms(2)] q(3) assms(3) have "q = p" by simp
  with q show ?thesis by simp
qed

lemma capture_inv_settle: "capture_inv s \<Longrightarrow> capture_inv (settle p r s)"
proof (cases "p < length (requests s) \<and> requests s ! p = Pending")
  case False
  assume "capture_inv s"
  with False show ?thesis by (auto simp: settle_def)
next
  case True
  assume inv: "capture_inv s"
  from pending_is_current [OF inv] True
  have cur: "streamInitPromise s = Some p" "in_flight s = 1" "globalStream s = None" by auto
  define s1 where "s1 = settle_module p r s"
  define s2 where "s2 = s1\<lparr>calls := map (settle_call p r s1) (calls s1)\<rparr>"
  have m: "module_of (settle p r s) = module_of s2"
    using True by (simp add: settle_def Let_def s1_def s2_def)
  have len: "length (requests s1) = length (requests s)"
    by (cases r) (simp_all add: s1_def settle_module_def)
  have zero: "in_flight s1 = 0"
    using count_pending_update [of p "requests s"] True cur(2)
    by (cases r) (auto simp: s1_def settle_module_def in_flight_def)
  have other: "q \<noteq> p \<Longrightarrow> requests s1 ! q = requests s ! q" for q
    by (cases r) (simp_all add: s1_def settle_module_def)
  have atp: "requests s1 ! p = (case r of Inr st \<Rightarrow> Fulfilled st | Inl e \<Rightarrow> Rejected e)"
    using True by (cases r) (simp_all add: s1_def settle_module_def)
  have callsOK: "list_all (\<lambda>c. via c < length (requests s1) \<and> outcome c = requests s1 ! via c)
      (map (settle_call p r s1) (calls s1))"
  proof -
    have c1: "calls s1 = calls s"
      by (cases r) (simp_all add: s1_def settle_module_def)
    have "via c < length (requests s) \<and> outcome c = requests s ! via c" if "c \<in> set (calls s)" for c
      using inv that by (auto simp: capture_inv_def list_all_iff)
    then show ?thesis
      using True atp other len
      by (auto simp: list_all_iff c1 settle_call_def request_at_def)
  qed
  have "capture_inv s2"
  proof (cases r)
    case (Inl e)
    then show ?thesis
      using callsOK zero cur len
      by (auto simp: capture_inv_def s2_def in_flight_def s1_def settle_module_def)
  next
    case (Inr st)
    then show ?thesis
      using callsOK zero cur len True atp
      by (auto simp: capture_inv_def s2_def in_flight_def s1_def settle_module_def)
  qed
  with m show ?thesis using capture_inv_cong by blast
qed

lemma capture_inv_step: "capture_inv s \<Longrightarrow> capture_inv (capture_step ev s)"
proof (cases ev)
  case (Mount en)
  assume "capture_inv s"
  then have "capture_inv (s\<lparr>feeds := feeds s @ [Some (new_feed en)]\<rparr>)"
    using capture_inv_cong [of "s\<lparr>feeds := feeds s @ [Some (new_feed en)]\<rparr>" s] by simp
  with Mount show ?thesis by (simp add: capture_inv_initializeWebcam)
next
  case (SetEnabled i en)
  assume inv: "capture_inv s"
  then have "capture_inv (upd_feed i g s)" for g
    using capture_inv_cong [of "upd_feed i g s" s] by simp
  with inv SetEnabled show ?thesis
    by (auto simp: capture_inv_initializeWebcam split: option.splits)
next
  case (Retry i)
  assume "capture_inv s"
  with Retry show ?thesis
    by (auto simp: capture_inv_initializeWebcam split: option.splits)
next
  case (Unmount i)
  assume inv: "capture_inv s"
  then have "capture_inv (upd_feed i g s)" for g
    using capture_inv_cong [of "upd_feed i g s" s] by simp
  then have "capture_inv (cleanup (upd_feed i g s))" for g
    by (rule capture_inv_cleanup)
  then have "capture_inv ((cleanup (upd_feed i g s))\<lparr>feeds := fs\<rparr>)" for g fs
    using capture_inv_cong [of "(cleanup (upd_feed i g s))\<lparr>feeds := fs\<rparr>" "cleanup (upd_feed i g s)"]
    by simp
  with inv Unmount show ?thesis
    by (auto simp: Let_def split: option.splits)
next
  case BeforeUnload
  assume "capture_inv s"
  with BeforeUnload show ?thesis by (simp add: capture_inv_cleanup)
next
  case (Settle p r)
  assume "capture_inv s"
  with Settle show ?thesis by (simp add: capture_inv_settle)
next
  case (LoadedMetadata i)
  assume inv: "capture_inv s"
  then have "capture_inv (upd_feed i g s)" for g
    using capture_inv_cong [of "upd_feed i g s" s] by simp
  with inv LoadedMetadata show ?thesis by (auto split: option.splits)
qed

lemma capture_inv_init: "capture_inv capture_init"
  by (simp add: capture_inv_def capture_init_def in_flight_def)

lemma capture_inv_fold: "capture_inv s \<Longrightarrow> capture_inv (fold capture_step evs s)"
  by (induction evs arbitrary: s) (simp_all add: capture_inv_step)

lemma capture_inv_run: "capture_inv (capture_run evs)"
  unfolding capture_run_def by (rule capture_inv_fold [OF capture_inv_init])


section \<open>Facts about playback\<close>

lemma clamp_time_id: "0 \<le> t \<Longrightarrow> t \<le> d \<Longrightarrow> clamp_time d t = t"
  by (simp add: clamp_time_def)


section \<open>Facts about the calls of getStream\<close>

lemma calls_settle:
  assumes "p < length (requests s)" "requests s ! p = Pending"
  shows "calls (settle p r s) = map (settle_call p r (settle_module p r s)) (calls s)"
proof -
  define s1 where "s1 = settle_module p r s"
  define s2 where "s2 = s1\<lparr>calls := map (settle_call p r s1) (calls s1)\<rparr>"
  have "module_of (settle p r s) = module_of s2"
    using assms by (simp add: settle_def Let_def s1_def s2_def)
  moreover have "calls s1 = calls s"
    by (cases r) (simp_all add: s1_def settle_module_def)
  ultimately show ?thesis
    by (simp add: module_of_def s2_def s1_def)
qed

lemma module_settle:
  assumes "p < length (requests s)" "requests s ! p = Pending"
  shows "requests (settle p r s) = (requests s)[p := settled r] \<and>
    streamInitPromise (settle p r s) = (case r of Inl e \<Rightarrow> None | Inr st \<Rightarrow> streamInitPromise s) \<and>
    globalStream (settle p r s) = (case r of Inl e \<Rightarrow> globalStream s | Inr st \<Rightarrow> Some st)"
proof -
  define s1 where "s1 = settle_module p r s"
  define s2 where "s2 = s1\<lparr>calls := map (settle_call p r s1) (calls s1)\<rparr>"
  have "module_of (settle p r s) = module_of s2"
    using assms by (simp add: settle_def Let_def s1_def s2_def)
  then show ?thesis
    by (cases r) (simp_all add: module_of_def s2_def s1_def settle_module_def settled_def)
qed

lemma getStream_follow:
  assumes "streamInitPromise s = Some p"
  shows "getStream s = s\<lparr>calls := calls s @ [\<lparr>via = p, awaiting = False, outcome = request_at s p\<rparr>]\<rparr>"
  using assms by (simp add: getStream_def)

lemma getStream_repeat:
  assumes "streamInitPromise s = Some p" "request_at s p = Pending"
  shows "requests ((getStream ^^ k) s) = requests s \<and>
    streamInitPromise ((getStream ^^ k) s) = Some p \<and>
    calls ((getStream ^^ k) s) =
      calls s @ replicate k \<lparr>via = p, awaiting = False, outcome = Pending\<rparr>"
proof (induction k)
  case 0
  then show ?case using assms by simp
next
  case (Suc k)
  let ?t = "(getStream ^^ k) s"
  from Suc have t: "requests ?t = requests s" "streamInitPromise ?t = Some p"
    "calls ?t = calls s @ replicate k \<lparr>via = p, awaiting = False, outcome = Pending\<rparr>"
    by auto
  have "request_at ?t p = Pending"
    using assms(2) t(1) by (auto simp: request_at_def split: if_splits)
  with t show ?case
    by (simp add: getStream_follow replicate_append_same)
qed

lemma settle_call_follower:
  assumes "request_at s1 p = settled r"
  shows "settle_call p r s1 \<lparr>via = p, awaiting = False, outcome = Pending\<rparr> =
    \<lparr>via = p, awaiting = False, outcome = settled r\<rparr>"
  using assms by (simp add: settle_call_def)

lemma settle_call_outcome:
  assumes "request_at s1 p = settled r" "via c = p"
  shows "outcome (settle_call p r s1 c) = settled r"
  using assms by (simp add: settle_call_def settled_def)

lemma request_at_settle_module:
  assumes "p < length (requests s)"
  shows "request_at (settle_module p r s) p = settled r"
  using assms by (cases r) (simp_all add: settle_module_def request_at_def settled_def)

lemma in_flight_settle:
  assumes "capture_inv s" "p < length (requests s)" "requests s ! p = Pending"
  shows "in_flight (settle p r s) = 0"
proof -
  from pending_is_current [OF assms] have one: "in_flight s = 1" by simp
  have ne: "settled r \<noteq> Pending" by (cases r) (simp_all add: settled_def)
  from count_pending_update [OF assms(2,3) ne] one
  show ?thesis
    by (simp add: in_flight_def module_settle [OF assms(2,3)])
qed


section \<open>Facts about teardown and retry\<close>

lemma feed_at_upd_feed: "feed_at (upd_feed i g s) i = map_option g (feed_at s i)"
  by (simp add: feed_at_def upd_feed_def)

lemma stopped_upd_feed [simp]: "stopped (upd_feed i g s) = stopped s"
  by (simp add: upd_feed_def)

lemma stopped_resumeInit [simp]: "stopped (resumeInit i r s) = stopped s"
  by (cases r) (simp_all add: resumeInit_def)

lemma stopped_getStream [simp]: "stopped (getStream s) = stopped s"
  by (simp add: getStream_def split: option.splits)

lemma stopped_initializeWebcam [simp]: "stopped (initializeWebcam i s) = stopped s"
  by (simp add: initializeWebcam_def Let_def split: option.splits)

lemma stopped_fold_resume [simp]: "stopped (fold (resume_waiting p s0) ws s) = stopped s"
  by (induction ws arbitrary: s) (simp_all add: resume_waiting_def split: option.splits)

lemma stopped_settle [simp]: "stopped (settle p r s) = stopped s"
  by (cases r) (simp_all add: settle_def Let_def settle_module_def)

lemma initializeWebcam_disabled:
  assumes "feed_at s i = Some f" "\<not> isEnabled f"
  shows "initializeWebcam i s =
    upd_feed i (\<lambda>f. f\<lparr>srcObject := None, isLoading := False\<rparr>)
      (upd_feed i (\<lambda>f. f\<lparr>isLoading := True, feedError := None\<rparr>) s)"
  using assms by (simp add: initializeWebcam_def Let_def)


lemma setEnabled_False:
  "module_of (capture_step (SetEnabled i False) s) = module_of s \<and>
   stopped (capture_step (SetEnabled i False) s) = stopped s"
proof (cases "feed_at s i")
  case None
  then show ?thesis by simp
next
  case (Some f)
  show ?thesis
  proof (cases "isEnabled f")
    case False
    with Some show ?thesis by simp
  next
    case True
    let ?s' = "upd_feed i (\<lambda>f. f\<lparr>srcObject := None, isEnabled := False\<rparr>) s"
    have "feed_at ?s' i = Some (f\<lparr>srcObject := None, isEnabled := False\<rparr>)"
      using Some by (simp add: feed_at_upd_feed)
    from initializeWebcam_disabled [OF this] Some True show ?thesis
      by simp
  qed
qed

lemma setEnabled_False_detaches:
  assumes "feed_at s i = Some f" "isEnabled f"
  shows "feed_at (capture_step (SetEnabled i False) s) i =
    Some (f\<lparr>srcObject := None, isEnabled := False, isLoading := False, feedError := None\<rparr>)"
proof -
  let ?s' = "upd_feed i (\<lambda>f. f\<lparr>srcObject := None, isEnabled := False\<rparr>) s"
  have "feed_at ?s' i = Some (f\<lparr>srcObject := None, isEnabled := False\<rparr>)"
    using assms by (simp add: feed_at_upd_feed)
  from initializeWebcam_disabled [OF this] assms show ?thesis
    by (simp add: feed_at_upd_feed)
qed

lemma stopped_step:
  assumes "stopped (capture_step ev s) \<noteq> stopped s"
  shows "ev = BeforeUnload \<or> (\<exists>i. ev = Unmount i)"
  using assms by (cases ev) (auto split: option.splits if_splits)

lemma unmount_stops:
  assumes "feed_at s i = Some f" "globalStream s = Some g"
  shows "stopped (capture_step (Unmount i) s) = stopped s @ [g] \<and>
      globalStream (capture_step (Unmount i) s) = None \<and>
      streamInitPromise (capture_step (Unmount i) s) = None"
  using assms by (simp add: Let_def cleanup_def upd_feed_def)

lemma beforeUnload_stops:
  assumes "list_ex (\<lambda>f. f \<noteq> None) (feeds s)" "globalStream s = Some g"
  shows "stopped (capture_step BeforeUnload s) = stopped s @ [g] \<and>
      globalStream (capture_step BeforeUnload s) = None \<and>
      streamInitPromise (capture_step BeforeUnload s) = None"
  using assms by (simp add: cleanup_def)


text \<open>The definitions that evaluate a run of the capture events.\<close>

lemmas capture_eval =
  capture_run_def capture_init_def initializeWebcam_def getStream_def upd_feed_def feed_at_def
  new_feed_def Let_def request_at_def resumeInit_def settle_def settle_module_def settle_call_def
  call_at_def resume_waiting_def still_waiting_def cleanup_def consumers_def

section \<open>The renderer's claims\<close>

text \<open>
  C5: the renderer draws a keypoint's point only when its confidence is strictly greater
  than 0.3 (a confidence of exactly 0.3 draws nothing), and draws the line of a
  connection if and only if both endpoint keypoints have a confidence strictly greater
  than 0.3. The calls drawSkeleton makes are the calls of each keypoint in turn, then
  the calls of each connection of the table in turn; a keypoint contributes calls exactly
  when its score exceeds 3/10, and a connection exactly when both labels are found and
  both found keypoints score above 3/10.
\<close>

theorem draw_threshold:
  "drawSkeleton ctx kps =
     ctx @ concat (map keypoint_ops kps) @ concat (map (connection_ops kps) connections) \<and>
   (keypoint_ops kp \<noteq> []) = (\<exists>v. kp_score kp = Some v \<and> 3 / 10 < v) \<and>
   keypoint_ops (kp\<lparr>kp_score := Some (3 / 10)\<rparr>) = [] \<and>
   (connection_ops kps c \<noteq> []) =
     (\<exists>startPoint endPoint v w.
        find_named (fst c) kps = Some startPoint \<and> find_named (snd c) kps = Some endPoint \<and>
        kp_score startPoint = Some v \<and> 3 / 10 < v \<and> kp_score endPoint = Some w \<and> 3 / 10 < w) \<and>
   fills (drawSkeleton [] kps) = length (filter (\<lambda>k. above_threshold (kp_score k)) kps)"
proof -
  have "fills (drawSkeleton [] kps) = length (filter (\<lambda>k. above_threshold (kp_score k)) kps)"
    by (simp add: drawSkeleton_ops fills_append fills_concat_points fills_concat_lines)
  moreover
  have "(keypoint_ops kp \<noteq> []) = (\<exists>v. kp_score kp = Some v \<and> 3 / 10 < v)"
    by (simp add: keypoint_ops_eq point_ops_def above_threshold_iff)
  moreover have "keypoint_ops (kp\<lparr>kp_score := Some (3 / 10)\<rparr>) = []"
    by (simp add: keypoint_ops_eq above_threshold_def)
  moreover have "(connection_ops kps c \<noteq> []) =
     (\<exists>startPoint endPoint v w.
        find_named (fst c) kps = Some startPoint \<and> find_named (snd c) kps = Some endPoint \<and>
        kp_score startPoint = Some v \<and> 3 / 10 < v \<and> kp_score endPoint = Some w \<and> 3 / 10 < w)"
    unfolding connection_ops_nonempty visible_iff above_threshold_iff by blast
  ultimately show ?thesis
    using drawSkeleton_ops by blast
qed

theorem draw_threshold_witness:
  "drawSkeleton []
     [\<lparr>kp_x = 1, kp_y = 2, kp_score = Some (9 / 10), kp_name = Some ''nose''\<rparr>,
      \<lparr>kp_x = 3, kp_y = 4, kp_score = Some (3 / 10), kp_name = Some ''left_eye''\<rparr>,
      \<lparr>kp_x = 5, kp_y = 6, kp_score = Some (1 / 2), kp_name = Some ''right_eye''\<rparr>] =
    [BeginPath, Arc 1 2 4, SetFillStyle ''#00ff00'', Fill,
     BeginPath, Arc 5 6 4, SetFillStyle ''#00ff00'', Fill,
     BeginPath, MoveTo 1 2, LineTo 5 6, SetStrokeStyle ''#00ff00'', SetLineWidth 2, Stroke]"
  using draw_threshold [of "[]"
     "[\<lparr>kp_x = 1, kp_y = 2, kp_score = Some (9 / 10), kp_name = Some ''nose''\<rparr>,
      \<lparr>kp_x = 3, kp_y = 4, kp_score = Some (3 / 10), kp_name = Some ''left_eye''\<rparr>,
      \<lparr>kp_x = 5, kp_y = 6, kp_score = Some (1 / 2), kp_name = Some ''right_eye''\<rparr>]"]
  by (simp add: keypoint_ops_def connection_ops_def drawPoint_def drawLine_def connections_def
      find_named_def truthy_def above_threshold_def point_ops_def line_ops_def)





text \<open>
  C10: a keypoint whose confidence score is absent (\<^verbatim>\<open>undefined\<close>) or zero is drawn
  neither as a point nor as the endpoint of a connection's line, whatever its
  coordinates: its own point draws nothing, every connection for which it is the
  keypoint found under one of the two labels draws nothing, and moving it leaves all
  calls of drawSkeleton unchanged.
\<close>

theorem absent_score_not_drawn:
  assumes "i < length kps" and "\<not> truthy (kp_score (kps ! i))"
  shows "drawPoint (kps ! i) ctx = ctx \<and>
    (\<forall>c. find_named (fst c) kps = Some (kps ! i) \<or> find_named (snd c) kps = Some (kps ! i)
       \<longrightarrow> drawLine kps c ctx = ctx) \<and>
    drawSkeleton ctx (kps[i := (kps ! i)\<lparr>kp_x := x, kp_y := y\<rparr>]) = drawSkeleton ctx kps"
proof -
  have "drawPoint (kps ! i) ctx = ctx"
    using assms(2) by (simp add: drawPoint_def)
  moreover have "drawLine kps c ctx = ctx"
    if "find_named (fst c) kps = Some (kps ! i) \<or> find_named (snd c) kps = Some (kps ! i)" for c
    using connection_ops_absent [OF assms(2) that] by (simp add: drawLine_append)
  moreover have "drawSkeleton ctx (kps[i := (kps ! i)\<lparr>kp_x := x, kp_y := y\<rparr>]) = drawSkeleton ctx kps"
  proof -
    have "connection_ops (kps[i := (kps ! i)\<lparr>kp_x := x, kp_y := y\<rparr>]) = connection_ops kps"
      by (rule ext) (rule connection_ops_move [OF assms])
    then show ?thesis
      by (simp only: drawSkeleton_ops keypoint_ops_move [OF assms])
  qed
  ultimately show ?thesis by blast
qed


theorem absent_score_not_drawn_witness:
  "drawPoint \<lparr>kp_x = 1, kp_y = 2, kp_score = Some 0, kp_name = Some ''nose''\<rparr> [ClearRect] = [ClearRect] \<and>
   drawLine
     [\<lparr>kp_x = 1, kp_y = 2, kp_score = Some 0, kp_name = Some ''nose''\<rparr>,
      \<lparr>kp_x = 3, kp_y = 4, kp_score = Some (9 / 10), kp_name = Some ''left_eye''\<rparr>]
     (''nose'', ''left_eye'') [ClearRect] = [ClearRect] \<and>
   drawSkeleton [ClearRect]
     [\<lparr>kp_x = 50, kp_y = 60, kp_score = Some 0, kp_name = Some ''nose''\<rparr>,
      \<lparr>kp_x = 3, kp_y = 4, kp_score = Some (9 / 10), kp_name = Some ''left_eye''\<rparr>] =
   drawSkeleton [ClearRect]
     [\<lparr>kp_x = 1, kp_y = 2, kp_score = Some 0, kp_name = Some ''nose''\<rparr>,
      \<lparr>kp_x = 3, kp_y = 4, kp_score = Some (9 / 10), kp_name = Some ''left_eye''\<rparr>]"
proof -
  let ?pose = "[\<lparr>kp_x = 1, kp_y = 2, kp_score = Some 0, kp_name = Some ''nose''\<rparr>,
      \<lparr>kp_x = 3, kp_y = 4, kp_score = Some (9 / 10), kp_name = Some ''left_eye''\<rparr>]"
  have h1: "0 < length ?pose" by simp
  have h2: "\<not> truthy (kp_score (?pose ! 0))" by (simp add: truthy_def)
  note fact = absent_score_not_drawn [OF h1 h2, where ctx = "[ClearRect]" and x = 50 and y = 60]
  have found: "find_named (fst (''nose'', ''left_eye'')) ?pose = Some (?pose ! 0)"
    by (simp add: find_named_def)
  from fact have point: "drawPoint (?pose ! 0) [ClearRect] = [ClearRect]"
    by (rule conjunct1)
  from fact found have line: "drawLine ?pose (''nose'', ''left_eye'') [ClearRect] = [ClearRect]"
    by blast
  from fact have moved: "drawSkeleton [ClearRect] (?pose[0 := (?pose ! 0)\<lparr>kp_x := 50, kp_y := 60\<rparr>]) =
      drawSkeleton [ClearRect] ?pose"
    by (rule conjunct2 [THEN conjunct2])
  from point line moved show ?thesis by simp
qed

section \<open>The playback claims\<close>

text \<open>
  C6, as stated, fails on handleSeek: the scenario of the spec (duration 120, play,
  seek to 130) ends with \<open>currentTime = 130\<close>, while the clamped target is 120.
\<close>

theorem seek_clamps_counterexample:
  "seek_scenario =
     Inr \<lparr>isPlaying = True, currentTime = 130, duration = 120, videoError = None,
          isEnded = False, isVideoLoading = False,
          videoRef = Some \<lparr>el_currentTime = 130, el_paused = False\<rparr>\<rparr> \<and>
   clamp_time 120 130 = 120"
  by (simp add: seek_scenario_def handleSeek_def handlePlayPause_def handleVideoLoaded_def
      handleDurationChange_def playback_init_def clamp_time_def)

text \<open>
  C6, amended: with a video element and no video error, the seek handler stores its
  target as the position, and in the element, as it is given: no clamping. A target
  between 0 and the duration is therefore stored as its clamped value. It leaves
  \<open>isPlaying\<close> and the duration as they were and clears \<open>isEnded\<close> exactly when the target
  is below the duration. The seek handler of InstructorVideo stores its target likewise.
  After the scenario the position is 130, the video is playing and not ended.
\<close>

theorem seek_stores_target:
  assumes "videoRef s = Some el" and "videoError s = None" and "iv_videoRef v = Some el'"
  shows "(\<exists>s'. handleSeek [t] s = Inr s' \<and> currentTime s' = t \<and>
            videoRef s' = Some (el\<lparr>el_currentTime := t\<rparr>) \<and>
            isPlaying s' = isPlaying s \<and> duration s' = duration s \<and>
            isEnded s' = (if t < duration s then False else isEnded s) \<and>
            (0 \<le> t \<and> t \<le> duration s \<longrightarrow> currentTime s' = clamp_time (duration s) t)) \<and>
         (\<exists>v'. iv_handleSeek [t] v = Inr v' \<and> iv_currentTime v' = t \<and>
            iv_isPlaying v' = iv_isPlaying v) \<and>
         (\<exists>s'. seek_scenario = Inr s' \<and> currentTime s' = 130 \<and> isPlaying s' \<and> \<not> isEnded s')"
proof -
  have "\<exists>s'. seek_scenario = Inr s' \<and> currentTime s' = 130 \<and> isPlaying s' \<and> \<not> isEnded s'"
    by (simp add: seek_scenario_def handleSeek_def handlePlayPause_def handleVideoLoaded_def
        handleDurationChange_def playback_init_def)
  moreover have "\<exists>v'. iv_handleSeek [t] v = Inr v' \<and> iv_currentTime v' = t \<and>
            iv_isPlaying v' = iv_isPlaying v"
    using assms(3) by (simp add: iv_handleSeek_def)
  moreover have "\<exists>s'. handleSeek [t] s = Inr s' \<and> currentTime s' = t \<and>
            videoRef s' = Some (el\<lparr>el_currentTime := t\<rparr>) \<and>
            isPlaying s' = isPlaying s \<and> duration s' = duration s \<and>
            isEnded s' = (if t < duration s then False else isEnded s) \<and>
            (0 \<le> t \<and> t \<le> duration s \<longrightarrow> currentTime s' = clamp_time (duration s) t)"
    using assms(1,2) by (simp add: handleSeek_def clamp_time_id)
  ultimately show ?thesis by blast
qed

theorem seek_stores_target_witness:
  "currentTime (after_seek playback_init
      (handleSeek [130] (playback_init\<lparr>duration := 120, isPlaying := True\<rparr>))) = 130 \<and>
   isPlaying (after_seek playback_init
      (handleSeek [130] (playback_init\<lparr>duration := 120, isPlaying := True\<rparr>))) \<and>
   currentTime (after_seek playback_init
      (handleSeek [60] (playback_init\<lparr>duration := 120, isPlaying := True\<rparr>))) = clamp_time 120 60"
proof -
  let ?s = "playback_init\<lparr>duration := 120, isPlaying := True\<rparr>"
  let ?v = "\<lparr>iv_isPlaying = False, iv_currentTime = 0, iv_duration = 0,
             iv_videoRef = Some \<lparr>el_currentTime = 0, el_paused = True\<rparr>\<rparr>"
  have h1: "videoRef ?s = Some \<lparr>el_currentTime = 0, el_paused = True\<rparr>"
    by (simp add: playback_init_def)
  have h2: "videoError ?s = None" by (simp add: playback_init_def)
  have h3: "iv_videoRef ?v = Some \<lparr>el_currentTime = 0, el_paused = True\<rparr>" by simp
  from seek_stores_target [OF h1 h2 h3, of 130]
  obtain s' where s': "handleSeek [130] ?s = Inr s'" "currentTime s' = 130"
    "isPlaying s' = isPlaying ?s"
    by blast
  from seek_stores_target [OF h1 h2 h3, of 60]
  obtain s'' where s'': "handleSeek [60] ?s = Inr s''"
    "0 \<le> (60::real) \<and> 60 \<le> duration ?s \<longrightarrow> currentTime s'' = clamp_time (duration ?s) 60"
    by blast
  from s''(2) have "currentTime s'' = clamp_time 120 60" by simp
  with s' s''(1) show ?thesis
    by (simp add: after_seek_def)
qed

text \<open>
  C8, as stated, fails: at position 2 with duration 120, seeking by -5 ends at 0, while
  the seek handler called with 2 + (-5) ends at -3.
\<close>

theorem seekRelative_counterexample:
  "handleSeekRelative (- 5) (playback_init\<lparr>duration := 120, currentTime := 2\<rparr>) \<noteq>
   handleSeek [2 + (- 5)] (playback_init\<lparr>duration := 120, currentTime := 2\<rparr>)"
  by (simp add: handleSeekRelative_def handleSeek_def playback_init_def)


text \<open>
  C8, amended: seeking by \<open>d\<close> from position \<open>p\<close> gives exactly the state (or the error) of
  the seek handler called with \<open>p + d\<close> clamped into the range from 0 to the duration; it
  agrees with the seek handler called with \<open>p + d\<close> itself whenever \<open>p + d\<close> lies in that
  range.
\<close>

theorem seekRelative_clamps_then_seeks:
  "handleSeekRelative d s = handleSeek [clamp_time (duration s) (currentTime s + d)] s \<and>
   (0 \<le> currentTime s + d \<and> currentTime s + d \<le> duration s \<longrightarrow>
      handleSeekRelative d s = handleSeek [currentTime s + d] s)"
proof -
  have eq: "handleSeekRelative d s = handleSeek [clamp_time (duration s) (currentTime s + d)] s"
    by (simp add: handleSeekRelative_def handleSeek_def clamp_time_def split: option.splits)
  moreover have "handleSeekRelative d s = handleSeek [currentTime s + d] s"
    if "0 \<le> currentTime s + d \<and> currentTime s + d \<le> duration s"
    using that eq by (simp add: clamp_time_id)
  ultimately show ?thesis by blast
qed

theorem seekRelative_clamps_then_seeks_witness:
  "handleSeekRelative 5 (playback_init\<lparr>duration := 120, currentTime := 2\<rparr>) =
     handleSeek [7] (playback_init\<lparr>duration := 120, currentTime := 2\<rparr>) \<and>
   handleSeekRelative (- 5) (playback_init\<lparr>duration := 120, currentTime := 2\<rparr>) =
     handleSeek [0] (playback_init\<lparr>duration := 120, currentTime := 2\<rparr>)"
  using seekRelative_clamps_then_seeks [of 5 "playback_init\<lparr>duration := 120, currentTime := 2\<rparr>"]
    seekRelative_clamps_then_seeks [of "- 5" "playback_init\<lparr>duration := 120, currentTime := 2\<rparr>"]
  by (simp add: clamp_time_def playback_init_def)


section \<open>The estimation loop's claims\<close>

text \<open>
  Within one run of the effect, whatever callbacks the browser runs and in whatever
  order, at most one estimation call is outstanding, and never together with a requested
  frame; every cycle begun before has finished its try/catch statement (the clearing and
  drawing, or the logging) when a frame is requested, so that a step begins a new cycle
  only when no estimation is outstanding and all earlier cycles are finished; and the
  draws are completed in the order of the cycles.
\<close>

theorem single_outstanding_estimation:
  "length (outstanding (loop_run evs)) + length (scheduled (loop_run evs)) \<le> 1 \<and>
   finished (loop_run evs) + length (outstanding (loop_run evs)) = cycles (loop_run evs) \<and>
   sorted_wrt (<) (drawn (loop_run evs)) \<and>
   (cycles (loop_step ev (loop_run evs)) \<noteq> cycles (loop_run evs) \<longrightarrow>
      outstanding (loop_run evs) = [] \<and> finished (loop_run evs) = cycles (loop_run evs))"
  using loop_inv_run [of evs] cycles_step [OF loop_inv_run, of ev evs]
  by (simp add: loop_inv_def)

theorem single_outstanding_estimation_witness:
  "cycles (loop_step (Frame 0) (loop_run [Estimated 0 (Inr [])])) \<noteq> cycles (loop_run [Estimated 0 (Inr [])]) \<and>
   outstanding (loop_run [Estimated 0 (Inr [])]) = [] \<and>
   scheduled (loop_run [Estimated 0 (Inr [])]) = [0] \<and>
   finished (loop_run [Estimated 0 (Inr [])]) = 1 \<and>
   drawn (loop_run [Estimated 0 (Inr [])]) = [0]"
proof -
  have start: "detectPose loop_init =
    \<lparr>detectorReady = True, outstanding = [0], scheduled = [], animationFrame = None,
     nextFrameId = 0, cycles = 1, finished = 0, drawn = [], canvas = [], console = []\<rparr>"
    by (simp add: detectPose_def loop_init_def)
  have run: "loop_run [Estimated 0 (Inr [])] =
    \<lparr>detectorReady = True, outstanding = [], scheduled = [0], animationFrame = Some 0,
     nextFrameId = 1, cycles = 1, finished = 1, drawn = [0], canvas = [ClearRect], console = []\<rparr>"
    unfolding loop_run_def start
    by (simp add: resumePose_def try_block_def requestAnimationFrame_def)
  have changed: "cycles (loop_step (Frame 0) (loop_run [Estimated 0 (Inr [])])) \<noteq>
      cycles (loop_run [Estimated 0 (Inr [])])"
    unfolding run by (simp add: detectPose_def)
  from single_outstanding_estimation [of "[Estimated 0 (Inr [])]" "Frame 0"] changed
  have "outstanding (loop_run [Estimated 0 (Inr [])]) = []"
    by blast
  with changed show ?thesis
    by (simp add: run)
qed



text \<open>
  C4: when the estimation of cycle \<open>n\<close> is outstanding in a running loop and its promise
  is rejected, the reason is logged, the canvas is neither cleared nor drawn on, and a
  frame is requested; with the detector still there, that frame begins cycle \<open>n + 1\<close>,
  whose poses are drawn on the cleared canvas as usual. The playback state and the
  capture state are those before the failure.
\<close>

theorem estimation_failure_skipped:
  assumes "app_loop a = loop_run evs"
    and "n \<in> set (outstanding (app_loop a))"
    and "detectorReady (app_loop a)"
  shows
   "(let a1 = app_step (LoopEvent (Estimated n (Inl e))) a;
         a2 = app_step (LoopEvent (Frame (nextFrameId (app_loop a)))) a1;
         a3 = app_step (LoopEvent (Estimated (Suc n) (Inr poses))) a2
     in console (app_loop a1) = console (app_loop a) @ [e] \<and>
        canvas (app_loop a1) = canvas (app_loop a) \<and>
        drawn (app_loop a1) = drawn (app_loop a) \<and>
        outstanding (app_loop a1) = [] \<and>
        scheduled (app_loop a1) = [nextFrameId (app_loop a)] \<and>
        outstanding (app_loop a2) = [Suc n] \<and>
        scheduled (app_loop a2) = [] \<and>
        canvas (app_loop a3) =
          fold (\<lambda>pose ctx. drawSkeleton ctx pose) poses (canvas (app_loop a) @ [ClearRect]) \<and>
        drawn (app_loop a3) = drawn (app_loop a) @ [Suc n] \<and>
        console (app_loop a3) = console (app_loop a) @ [e] \<and>
        app_playback a1 = app_playback a \<and> app_capture a1 = app_capture a \<and>
        app_playback a3 = app_playback a \<and> app_capture a3 = app_capture a)"
proof -
  have inv: "loop_inv (app_loop a)"
    using assms(1) loop_inv_run by simp
  from loop_inv_outstanding [OF inv assms(2)]
  have *: "outstanding (app_loop a) = [n]" "scheduled (app_loop a) = []"
    "cycles (app_loop a) = Suc n"
    by auto
  show ?thesis
    using * assms(3)
    by (simp add: Let_def resumePose_def try_block_def requestAnimationFrame_def detectPose_def)
qed


theorem estimation_failure_skipped_witness:
  "console (app_loop (app_step (LoopEvent (Estimated 0 (Inl (JsError ''model failed''))))
      \<lparr>app_playback = playback_init, app_capture = capture_init, app_loop = loop_run []\<rparr>)) =
     [JsError ''model failed''] \<and>
   canvas (app_loop (app_step (LoopEvent (Estimated 0 (Inl (JsError ''model failed''))))
      \<lparr>app_playback = playback_init, app_capture = capture_init, app_loop = loop_run []\<rparr>)) = [] \<and>
   scheduled (app_loop (app_step (LoopEvent (Estimated 0 (Inl (JsError ''model failed''))))
      \<lparr>app_playback = playback_init, app_capture = capture_init, app_loop = loop_run []\<rparr>)) = [0] \<and>
   app_playback (app_step (LoopEvent (Estimated 0 (Inl (JsError ''model failed''))))
      \<lparr>app_playback = playback_init, app_capture = capture_init, app_loop = loop_run []\<rparr>) =
     playback_init \<and>
   app_capture (app_step (LoopEvent (Estimated 0 (Inl (JsError ''model failed''))))
      \<lparr>app_playback = playback_init, app_capture = capture_init, app_loop = loop_run []\<rparr>) =
     capture_init"
proof -
  let ?a = "\<lparr>app_playback = playback_init, app_capture = capture_init, app_loop = loop_run []\<rparr>"
  have run: "loop_run [] =
    \<lparr>detectorReady = True, outstanding = [0], scheduled = [], animationFrame = None,
     nextFrameId = 0, cycles = 1, finished = 0, drawn = [], canvas = [], console = []\<rparr>"
    by (simp add: loop_run_def detectPose_def loop_init_def)
  have h1: "app_loop ?a = loop_run []" by simp
  have h2: "0 \<in> set (outstanding (app_loop ?a))" by (simp add: run)
  have h3: "detectorReady (app_loop ?a)" by (simp add: run)
  from estimation_failure_skipped [OF h1 h2 h3, of "JsError ''model failed''" "[]"]
  show ?thesis
    unfolding Let_def by (simp add: run)
qed


section \<open>The capture stream's claims\<close>

text \<open>
  C1: in every state the page can reach, at most one \<^verbatim>\<open>getUserMedia\<close> promise is unsettled,
  and the result of every call of getStream is the state of the promise it goes through.
  While a promise is unsettled, any number of further calls of getStream issue no
  request: each returns the unsettled promise. When it settles, the call that awaits it
  and all the calls that returned it have one and the same result, the stream it
  resolved to or the reason it was rejected with, and nothing is in flight.
\<close>

theorem acquisition_deduplicated:
  assumes "s = capture_run evs"
  shows "in_flight s \<le> 1 \<and>
    list_all (\<lambda>c. outcome c = request_at s (via c)) (calls s) \<and>
    (p < length (requests s) \<and> requests s ! p = Pending \<longrightarrow>
       requests ((getStream ^^ k) s) = requests s \<and>
       calls ((getStream ^^ k) s) =
         calls s @ replicate k \<lparr>via = p, awaiting = False, outcome = Pending\<rparr> \<and>
       in_flight ((getStream ^^ k) s) = 1 \<and>
       calls (settle p r ((getStream ^^ k) s)) =
         map (settle_call p r (settle_module p r s)) (calls s) @
         replicate k \<lparr>via = p, awaiting = False, outcome = settled r\<rparr> \<and>
       list_all (\<lambda>c. outcome c = settled r)
         (filter (\<lambda>c. via c = p) (calls (settle p r ((getStream ^^ k) s)))) \<and>
       in_flight (settle p r ((getStream ^^ k) s)) = 0)"
proof -
  have inv: "capture_inv s"
    using assms capture_inv_run by simp
  have le: "in_flight s \<le> 1"
    using inv by (auto simp: capture_inv_def split: option.splits settle.splits)
  have agree: "list_all (\<lambda>c. outcome c = request_at s (via c)) (calls s)"
    using inv by (auto simp: capture_inv_def list_all_iff request_at_def)
  have flight: "requests ((getStream ^^ k) s) = requests s \<and>
       calls ((getStream ^^ k) s) =
         calls s @ replicate k \<lparr>via = p, awaiting = False, outcome = Pending\<rparr> \<and>
       in_flight ((getStream ^^ k) s) = 1 \<and>
       calls (settle p r ((getStream ^^ k) s)) =
         map (settle_call p r (settle_module p r s)) (calls s) @
         replicate k \<lparr>via = p, awaiting = False, outcome = settled r\<rparr> \<and>
       list_all (\<lambda>c. outcome c = settled r)
         (filter (\<lambda>c. via c = p) (calls (settle p r ((getStream ^^ k) s)))) \<and>
       in_flight (settle p r ((getStream ^^ k) s)) = 0"
    if pend: "p < length (requests s) \<and> requests s ! p = Pending"
  proof -
    let ?t = "(getStream ^^ k) s"
    from pending_is_current [OF inv] pend
    have cur: "streamInitPromise s = Some p" "in_flight s = 1" by auto
    have rp: "request_at s p = Pending" using pend by (simp add: request_at_def)
    from getStream_repeat [OF cur(1) rp, of k]
    have t: "requests ?t = requests s" "streamInitPromise ?t = Some p"
      "calls ?t = calls s @ replicate k \<lparr>via = p, awaiting = False, outcome = Pending\<rparr>"
      by auto
    have pend_t: "p < length (requests ?t)" "requests ?t ! p = Pending"
      using pend t(1) by auto
    have at: "request_at (settle_module p r s) p = settled r"
      using pend by (simp add: request_at_settle_module)
    have at_t: "request_at (settle_module p r ?t) p = settled r"
      using pend_t(1) by (rule request_at_settle_module)
    have mod_eq: "settle_call p r (settle_module p r ?t) = settle_call p r (settle_module p r s)"
      by (rule ext) (simp add: settle_call_def at at_t)
    have "calls (settle p r ?t) = map (settle_call p r (settle_module p r s)) (calls ?t)"
      by (simp only: calls_settle [OF pend_t] mod_eq)
    also have "\<dots> = map (settle_call p r (settle_module p r s)) (calls s) @
         replicate k (settle_call p r (settle_module p r s) \<lparr>via = p, awaiting = False, outcome = Pending\<rparr>)"
      by (simp only: t(3) map_append map_replicate)
    finally have calls_t: "calls (settle p r ?t) =
         map (settle_call p r (settle_module p r s)) (calls s) @
         replicate k \<lparr>via = p, awaiting = False, outcome = settled r\<rparr>"
      by (simp only: settle_call_follower [OF at])
    have "outcome c = settled r" if "c \<in> set (calls (settle p r ?t))" "via c = p" for c
    proof -
      from that(1) consider c' where "c' \<in> set (calls s)" "c = settle_call p r (settle_module p r s) c'"
        | "c = \<lparr>via = p, awaiting = False, outcome = settled r\<rparr>"
        unfolding calls_t by auto
      then show ?thesis
      proof cases
        case 1
        from 1(2) that(2) have "via c' = p" by (simp add: settle_call_def split: if_splits)
        with 1(2) settle_call_outcome [OF at] show ?thesis by simp
      next
        case 2
        then show ?thesis by simp
      qed
    qed
    then have same: "list_all (\<lambda>c. outcome c = settled r)
         (filter (\<lambda>c. via c = p) (calls (settle p r ?t)))"
      by (simp add: list_all_iff)
    have inv_t: "capture_inv ?t"
      by (induction k) (simp_all add: inv capture_inv_getStream)
    have fl_t: "in_flight ?t = 1"
      using cur(2) t(1) by (simp add: in_flight_def)
    note zero = in_flight_settle [OF inv_t pend_t, of r]
    from t(1) t(3) fl_t calls_t same zero show ?thesis
      by (intro conjI)
  qed
  then have "p < length (requests s) \<and> requests s ! p = Pending \<longrightarrow>
       requests ((getStream ^^ k) s) = requests s \<and>
       calls ((getStream ^^ k) s) =
         calls s @ replicate k \<lparr>via = p, awaiting = False, outcome = Pending\<rparr> \<and>
       in_flight ((getStream ^^ k) s) = 1 \<and>
       calls (settle p r ((getStream ^^ k) s)) =
         map (settle_call p r (settle_module p r s)) (calls s) @
         replicate k \<lparr>via = p, awaiting = False, outcome = settled r\<rparr> \<and>
       list_all (\<lambda>c. outcome c = settled r)
         (filter (\<lambda>c. via c = p) (calls (settle p r ((getStream ^^ k) s)))) \<and>
       in_flight (settle p r ((getStream ^^ k) s)) = 0"
    by (rule impI)
  with le agree show ?thesis by (intro conjI)
qed



theorem acquisition_deduplicated_witness:
  "in_flight (capture_run [Mount True, Mount True]) = 1 \<and>
   requests ((getStream ^^ 2) (capture_run [Mount True, Mount True])) = [Pending] \<and>
   list_all (\<lambda>c. outcome c = Fulfilled 7)
     (filter (\<lambda>c. via c = 0)
        (calls (settle 0 (Inr 7) ((getStream ^^ 2) (capture_run [Mount True, Mount True]))))) \<and>
   length (calls (settle 0 (Inr 7) ((getStream ^^ 2) (capture_run [Mount True, Mount True])))) = 4 \<and>
   in_flight (settle 0 (Inr 7) ((getStream ^^ 2) (capture_run [Mount True, Mount True]))) = 0"
proof -
  let ?s = "capture_run [Mount True, Mount True]"
  have run: "?s =
    \<lparr>globalStream = None, streamInitPromise = Some 0, requests = [Pending],
     calls = [\<lparr>via = 0, awaiting = True, outcome = Pending\<rparr>,
              \<lparr>via = 0, awaiting = False, outcome = Pending\<rparr>],
     stopped = [],
     feeds = [Some \<lparr>isEnabled = True, srcObject = None, isLoading = True, feedError = None,
                    streamReady = False, awaitingMetadata = False\<rparr>,
              Some \<lparr>isEnabled = True, srcObject = None, isLoading = True, feedError = None,
                    streamReady = False, awaitingMetadata = False\<rparr>],
     waiting = [(0, 0), (1, 1)]\<rparr>"
    by (simp add: capture_eval)
  have pend: "0 < length (requests ?s) \<and> requests ?s ! 0 = Pending"
    by (simp add: run)
  note fact = acquisition_deduplicated [OF refl, of "[Mount True, Mount True]" 0 2 "Inr 7"]
  from fact pend
  have a: "requests ((getStream ^^ 2) ?s) = requests ?s"
    and b: "in_flight ((getStream ^^ 2) ?s) = 1"
    and c: "calls (settle 0 (Inr 7) ((getStream ^^ 2) ?s)) =
         map (settle_call 0 (Inr 7) (settle_module 0 (Inr 7) ?s)) (calls ?s) @
         replicate 2 \<lparr>via = 0, awaiting = False, outcome = settled (Inr 7)\<rparr>"
    and d: "list_all (\<lambda>c. outcome c = settled (Inr 7))
         (filter (\<lambda>c. via c = 0) (calls (settle 0 (Inr 7) ((getStream ^^ 2) ?s))))"
    and e: "in_flight (settle 0 (Inr 7) ((getStream ^^ 2) ?s)) = 0"
    by blast+
  have f: "in_flight ?s = 1" by (simp add: run in_flight_def)
  have g: "length (calls (settle 0 (Inr 7) ((getStream ^^ 2) ?s))) = 4"
    unfolding c by (simp add: run)
  from a d e f g show ?thesis
    by (simp add: settled_def run)
qed

text \<open>
  C2, as stated, fails on both counts. Two feeds show the shared stream 7; unmounting one
  of them stops the stream's tracks while the other still shows it. And disabling a feed
  that shows the stream stops nothing: the stream is still held and live.
\<close>

theorem refcount_counterexample:
  "consumers (capture_run [Mount True, Mount True, Settle 0 (Inr 7)]) 7 = 2 \<and>
   consumers (capture_run [Mount True, Mount True, Settle 0 (Inr 7), Unmount 0]) 7 = 1 \<and>
   stopped (capture_run [Mount True, Mount True, Settle 0 (Inr 7), Unmount 0]) = [7] \<and>
   consumers (capture_run [Mount True, Mount True, Settle 0 (Inr 7), SetEnabled 0 False]) 7 = 1 \<and>
   stopped (capture_run [Mount True, Mount True, Settle 0 (Inr 7), SetEnabled 0 False]) = [] \<and>
   globalStream (capture_run [Mount True, Mount True, Settle 0 (Inr 7), SetEnabled 0 False]) = Some 7"
  by (simp add: capture_eval)


text \<open>
  C2, amended: the module counts no consumers. The tracks of the shared stream are stopped
  by the teardown handler alone, which runs when a feed unmounts and on
  \<^verbatim>\<open>beforeunload\<close>: if a stream is held, it stops the stream's tracks at once and clears
  the stream and the promise, however many feeds show the stream. Setting a feed's
  \<^verbatim>\<open>isEnabled\<close> to false stops no track and leaves the stream and the promise as they
  are; it detaches the feed's video element.
\<close>

theorem teardown_stops_tracks:
  "(feed_at s i \<noteq> None \<and> globalStream s = Some g \<longrightarrow>
      stopped (capture_step (Unmount i) s) = stopped s @ [g] \<and>
      globalStream (capture_step (Unmount i) s) = None \<and>
      streamInitPromise (capture_step (Unmount i) s) = None) \<and>
   (list_ex (\<lambda>f. f \<noteq> None) (feeds s) \<and> globalStream s = Some g \<longrightarrow>
      stopped (capture_step BeforeUnload s) = stopped s @ [g] \<and>
      globalStream (capture_step BeforeUnload s) = None \<and>
      streamInitPromise (capture_step BeforeUnload s) = None) \<and>
   stopped (capture_step (SetEnabled i False) s) = stopped s \<and>
   globalStream (capture_step (SetEnabled i False) s) = globalStream s \<and>
   streamInitPromise (capture_step (SetEnabled i False) s) = streamInitPromise s \<and>
   (feed_at s i = Some f \<and> isEnabled f \<longrightarrow>
      feed_at (capture_step (SetEnabled i False) s) i =
        Some (f\<lparr>srcObject := None, isEnabled := False, isLoading := False, feedError := None\<rparr>)) \<and>
   (stopped (capture_step ev s) \<noteq> stopped s \<longrightarrow> ev = BeforeUnload \<or> (\<exists>j. ev = Unmount j))"
proof -
  have "stopped (capture_step (SetEnabled i False) s) = stopped s \<and>
   globalStream (capture_step (SetEnabled i False) s) = globalStream s \<and>
   streamInitPromise (capture_step (SetEnabled i False) s) = streamInitPromise s"
    using setEnabled_False [of i s] by (simp add: module_of_def)
  moreover have "feed_at s i \<noteq> None \<and> globalStream s = Some g \<longrightarrow>
      stopped (capture_step (Unmount i) s) = stopped s @ [g] \<and>
      globalStream (capture_step (Unmount i) s) = None \<and>
      streamInitPromise (capture_step (Unmount i) s) = None"
    using unmount_stops [of s i _ g] by blast
  moreover have "list_ex (\<lambda>f. f \<noteq> None) (feeds s) \<and> globalStream s = Some g \<longrightarrow>
      stopped (capture_step BeforeUnload s) = stopped s @ [g] \<and>
      globalStream (capture_step BeforeUnload s) = None \<and>
      streamInitPromise (capture_step BeforeUnload s) = None"
    using beforeUnload_stops [of s g] by blast
  moreover have "feed_at s i = Some f \<and> isEnabled f \<longrightarrow>
      feed_at (capture_step (SetEnabled i False) s) i =
        Some (f\<lparr>srcObject := None, isEnabled := False, isLoading := False, feedError := None\<rparr>)"
    using setEnabled_False_detaches [of s i f] by blast
  moreover have "stopped (capture_step ev s) \<noteq> stopped s \<longrightarrow> ev = BeforeUnload \<or> (\<exists>j. ev = Unmount j)"
    using stopped_step [of ev s] by blast
  ultimately show ?thesis by blast
qed

theorem teardown_stops_tracks_witness:
  "stopped (capture_step (Unmount 0) (capture_run [Mount True, Mount True, Settle 0 (Inr 7)])) = [7] \<and>
   globalStream (capture_step (Unmount 0) (capture_run [Mount True, Mount True, Settle 0 (Inr 7)])) = None \<and>
   stopped (capture_step BeforeUnload (capture_run [Mount True, Mount True, Settle 0 (Inr 7)])) = [7] \<and>
   stopped (capture_step (SetEnabled 0 False) (capture_run [Mount True, Mount True, Settle 0 (Inr 7)])) = [] \<and>
   map_option srcObject
     (feed_at (capture_step (SetEnabled 0 False) (capture_run [Mount True, Mount True, Settle 0 (Inr 7)])) 0) =
     Some None \<and>
   stopped (capture_step (Unmount 0) (capture_run [Mount True, Mount True, Settle 0 (Inr 7)])) \<noteq>
     stopped (capture_run [Mount True, Mount True, Settle 0 (Inr 7)])"
proof -
  let ?s = "capture_run [Mount True, Mount True, Settle 0 (Inr 7)]"
  let ?f = "\<lparr>isEnabled = True, srcObject = Some 7, isLoading = True, feedError = None,
             streamReady = False, awaitingMetadata = True\<rparr>"
  have run: "?s =
    \<lparr>globalStream = Some 7, streamInitPromise = Some 0, requests = [Fulfilled 7],
     calls = [\<lparr>via = 0, awaiting = True, outcome = Fulfilled 7\<rparr>,
              \<lparr>via = 0, awaiting = False, outcome = Fulfilled 7\<rparr>],
     stopped = [],
     feeds = [Some ?f, Some ?f],
     waiting = []\<rparr>"
    by (simp add: capture_eval)
  have h1: "feed_at ?s 0 \<noteq> None \<and> globalStream ?s = Some 7"
    by (simp add: run feed_at_def)
  have h2: "list_ex (\<lambda>f. f \<noteq> None) (feeds ?s) \<and> globalStream ?s = Some 7"
    by (simp add: run)
  have h3: "feed_at ?s 0 = Some ?f \<and> isEnabled ?f"
    by (simp add: run feed_at_def)
  note fact = teardown_stops_tracks [of ?s 0 7 ?f "Unmount 0"]
  from fact h1 have a: "stopped (capture_step (Unmount 0) ?s) = stopped ?s @ [7]"
    and b: "globalStream (capture_step (Unmount 0) ?s) = None"
    by blast+
  from fact h2 have c: "stopped (capture_step BeforeUnload ?s) = stopped ?s @ [7]"
    by blast
  from fact have d: "stopped (capture_step (SetEnabled 0 False) ?s) = stopped ?s"
    by blast
  from fact h3 have e: "feed_at (capture_step (SetEnabled 0 False) ?s) 0 =
      Some (?f\<lparr>srcObject := None, isEnabled := False, isLoading := False, feedError := None\<rparr>)"
    by blast
  have st: "stopped ?s = []" by (simp add: run)
  from a b c d e st show ?thesis by simp
qed




end
